theory Spec2Isabelle
  imports Complex_Main "HOL-Library.Log_Nat"
begin

section \<open>The grid\<close>

text \<open>
  \<^verbatim>\<open>CELL_TYPE = { EMPTY: 0, OCCUPIED: 1, TRAIL: 2 }\<close>. The grid is an array of
  \<^verbatim>\<open>GRID_SIZE\<close> rows, each an array of \<^verbatim>\<open>GRID_SIZE\<close> cells, read as
  \<^verbatim>\<open>grid[y][x]\<close>. \<^verbatim>\<open>GRID_SIZE\<close> is a mutable global of the source; it is the
  parameter \<open>N\<close> of every function below.
\<close>

datatype cell = EMPTY | OCCUPIED | TRAIL

type_synonym grid = "cell list list"

type_synonym pos = "int \<times> int"

datatype error = TypeError

text \<open>
  \<^verbatim>\<open>a[i]\<close> on a JavaScript array: the element when \<open>i\<close> is an index of the array,
  \<^verbatim>\<open>undefined\<close> (here \<open>None\<close>) otherwise, also for a negative \<open>i\<close>.
\<close>

definition elemAt :: "'a list \<Rightarrow> int \<Rightarrow> 'a option" where
  "elemAt xs i = (if 0 \<le> i \<and> i < int (length xs) then Some (xs ! nat i) else None)"

text \<open>
  \<^verbatim>\<open>grid[y][x]\<close> where the row index comes from a position: reading a property of
  \<^verbatim>\<open>undefined\<close> throws a TypeError, a missing column gives \<^verbatim>\<open>undefined\<close>.
\<close>

definition readCell :: "grid \<Rightarrow> int \<Rightarrow> int \<Rightarrow> error + cell option" where
  "readCell g y x = (case elemAt g y of None \<Rightarrow> Inl TypeError | Some row \<Rightarrow> Inr (elemAt row x))"

text \<open>
  \<^verbatim>\<open>grid[y][x]\<close> inside the loops over \<^verbatim>\<open>0 .. GRID_SIZE - 1\<close>. On the
  \<^verbatim>\<open>GRID_SIZE\<close> by \<^verbatim>\<open>GRID_SIZE\<close> grid that \<^verbatim>\<open>initGrid\<close> builds every such row
  exists (\<open>wf_grid\<close> below), so the read cannot throw there; the results about these
  loops assume \<open>wf_grid\<close>.
\<close>

definition gridAt :: "grid \<Rightarrow> int \<Rightarrow> int \<Rightarrow> cell option" where
  "gridAt g y x = (case elemAt g y of None \<Rightarrow> None | Some row \<Rightarrow> elemAt row x)"

text \<open>
  \<^verbatim>\<open>grid[y][x] = v\<close>. The source only writes cells it has just read or cells inside
  the loop bounds; outside the grid the model leaves the grid as it is.
\<close>

definition setCell :: "grid \<Rightarrow> int \<Rightarrow> int \<Rightarrow> cell \<Rightarrow> grid" where
  "setCell g y x v =
     (if 0 \<le> y \<and> y < int (length g) \<and> 0 \<le> x \<and> x < int (length (g ! nat y))
      then g[nat y := (g ! nat y)[nat x := v]] else g)"

definition wf_grid :: "nat \<Rightarrow> grid \<Rightarrow> bool" where
  "wf_grid N g = (length g = N \<and> list_all (\<lambda>row. length row = N) g)"

text \<open>
  The index pairs of \<^verbatim>\<open>for (y = 0; y < GRID_SIZE; y++) for (x = 0; x < GRID_SIZE; x++)\<close>,
  in the order the loops visit them, as \<open>(x, y)\<close>.
\<close>

definition scanCells :: "nat \<Rightarrow> pos list" where
  "scanCells N = concat (map (\<lambda>y. map (\<lambda>x. (int x, int y)) [0..<N]) [0..<N])"

definition inBounds :: "nat \<Rightarrow> pos \<Rightarrow> bool" where
  "inBounds N p = (0 \<le> fst p \<and> fst p < int N \<and> 0 \<le> snd p \<and> snd p < int N)"

section \<open>Hostile entities and the controlled unit\<close>

datatype kind = Ball | Mine

record Enemy =
  enemy_x :: real
  enemy_z :: real
  enemy_type :: kind
  enemy_speed :: real
  enemy_vx :: real
  enemy_vz :: real

record Drone =
  drone_x :: real
  drone_z :: real
  drone_vx :: real
  drone_vz :: real
  drone_lastX :: int
  drone_lastZ :: int
  drone_speed :: real

text \<open>
  Positions and velocities are JavaScript numbers; they are modelled as reals, so
  \<^verbatim>\<open>x + vx\<close> is exact here. The results about motion below only use the comparisons
  and \<^verbatim>\<open>Math.floor\<close> of the values the code compares and floors.
\<close>

section \<open>FloodFill.getFillableAreas\<close>

text \<open>\<^verbatim>\<open>enemies.some(e => Math.floor(e.x) === cx && Math.floor(e.z) === cy)\<close>\<close>

definition enemyAt :: "Enemy list \<Rightarrow> pos \<Rightarrow> bool" where
  "enemyAt es c = list_ex (\<lambda>e. \<lfloor>enemy_x e\<rfloor> = fst c \<and> \<lfloor>enemy_z e\<rfloor> = snd c) es"

text \<open>
  \<^verbatim>\<open>visited\<close> is a local \<^verbatim>\<open>GRID_SIZE\<close> by \<^verbatim>\<open>GRID_SIZE\<close> array of flags, read and
  written only at indices already checked against \<^verbatim>\<open>GRID_SIZE\<close>; it is the set of
  the cells whose flag is true.

  One neighbour of the inner \<^verbatim>\<open>for (const [nx, ny] of neighbors)\<close>:
\<close>

definition visitNeighbor :: "nat \<Rightarrow> grid \<Rightarrow> pos \<Rightarrow> pos list \<times> pos set \<Rightarrow> pos list \<times> pos set" where
  "visitNeighbor N g n qv =
     (if fst n \<ge> 0 \<and> fst n < int N \<and> snd n \<ge> 0 \<and> snd n < int N \<and>
         gridAt g (snd n) (fst n) = Some EMPTY \<and> n \<notin> snd qv
      then (fst qv @ [n], insert n (snd qv)) else qv)"

definition neighbors :: "pos \<Rightarrow> pos list" where
  "neighbors c = [(fst c + 1, snd c), (fst c - 1, snd c), (fst c, snd c + 1), (fst c, snd c - 1)]"

text \<open>The number of cells of the grid whose flag is not set: it bounds the search below.\<close>

definition unvisited :: "nat \<Rightarrow> pos set \<Rightarrow> nat" where
  "unvisited N vis = card ({p. inBounds N p} - vis)"

text \<open>
  \<^verbatim>\<open>while (queue.length > 0)\<close>: the queue, the visited flags, the area collected so
  far and \<^verbatim>\<open>hasEnemy\<close>.
\<close>

function bfs :: "nat \<Rightarrow> grid \<Rightarrow> Enemy list \<Rightarrow> pos list \<Rightarrow> pos set \<Rightarrow> pos list \<Rightarrow> bool
    \<Rightarrow> pos set \<times> pos list \<times> bool" where
  "bfs N g es [] vis area hasEnemy = (vis, area, hasEnemy)"
| "bfs N g es (c # queue) vis area hasEnemy =
     (let qv = fold (visitNeighbor N g) (neighbors c) (queue, vis)
      in bfs N g es (fst qv) (snd qv) (area @ [c]) (if enemyAt es c then True else hasEnemy))"
  by pat_completeness auto

text \<open>
  The body of the two scanning loops at the cell \<open>c = (x, y)\<close>: the visited flags and
  \<^verbatim>\<open>areas\<close> before and after.
\<close>

definition scanStep :: "nat \<Rightarrow> grid \<Rightarrow> Enemy list \<Rightarrow> pos
    \<Rightarrow> pos set \<times> pos list list \<Rightarrow> pos set \<times> pos list list" where
  "scanStep N g es c va =
     (if gridAt g (snd c) (fst c) = Some EMPTY \<and> c \<notin> fst va
      then (let r = bfs N g es [c] (insert c (fst va)) [] False
            in (fst r, if \<not> snd (snd r) then snd va @ [fst (snd r)] else snd va))
      else va)"

definition getFillableAreas :: "nat \<Rightarrow> grid \<Rightarrow> Enemy list \<Rightarrow> pos list list" where
  "getFillableAreas N g es = snd (fold (scanStep N g es) (scanCells N) ({}, []))"

section \<open>Drone\<close>

text \<open>
  \<^verbatim>\<open>Drone.update\<close>: the rotation and tilt of the mesh and the light are rendering and
  are left out. The grid argument is not read.
\<close>

definition Drone_update :: "nat \<Rightarrow> Drone \<Rightarrow> Drone" where
  "Drone_update N d =
     (let nextX = drone_x d + drone_vx d;
          nextZ = drone_z d + drone_vz d
      in if nextX \<ge> 0 \<and> nextX < real N \<and> nextZ \<ge> 0 \<and> nextZ < real N
         then d\<lparr>drone_x := nextX, drone_z := nextZ\<rparr>
         else d)"

definition Drone_reset :: "real \<Rightarrow> real \<Rightarrow> Drone \<Rightarrow> Drone" where
  "Drone_reset x z d =
     d\<lparr>drone_x := x, drone_z := z, drone_vx := 0, drone_vz := 0,
       drone_lastX := \<lfloor>x\<rfloor>, drone_lastZ := \<lfloor>z\<rfloor>\<rparr>"

section \<open>Enemy\<close>

text \<open>
  \<^verbatim>\<open>i < 0 || i >= GRID_SIZE || rest\<close>: \<open>rest\<close> is evaluated only when the index is
  inside the bounds.
\<close>

definition outOr :: "nat \<Rightarrow> int \<Rightarrow> error + bool \<Rightarrow> error + bool" where
  "outOr N i rest = (if i < 0 \<or> i \<ge> int N then Inr True else rest)"

text \<open>\<^verbatim>\<open>grid[y][x] === v\<close> and \<^verbatim>\<open>grid[y][x] !== v\<close>\<close>

definition cellIs :: "grid \<Rightarrow> int \<Rightarrow> int \<Rightarrow> cell \<Rightarrow> error + bool" where
  "cellIs g y x v = (case readCell g y x of Inl err \<Rightarrow> Inl err | Inr c \<Rightarrow> Inr (c = Some v))"

definition cellIsNot :: "grid \<Rightarrow> int \<Rightarrow> int \<Rightarrow> cell \<Rightarrow> error + bool" where
  "cellIsNot g y x v = (case readCell g y x of Inl err \<Rightarrow> Inl err | Inr c \<Rightarrow> Inr (c \<noteq> Some v))"

text \<open>
  \<^verbatim>\<open>Enemy.update\<close>. The result is the entity as the call leaves it and the exception
  it threw, if any: a throw in the first test leaves the entity untouched, a throw in
  the second test comes after the first has already turned \<^verbatim>\<open>vx\<close>.
\<close>

definition Enemy_update :: "nat \<Rightarrow> grid \<Rightarrow> Enemy \<Rightarrow> Enemy \<times> error option" where
  "Enemy_update N g e =
     (let nextX = enemy_x e + enemy_vx e;
          nextZ = enemy_z e + enemy_vz e;
          gridX = \<lfloor>nextX\<rfloor>;
          gridZ = \<lfloor>nextZ\<rfloor>
      in case (if enemy_type e = Ball
               then outOr N gridX (cellIs g \<lfloor>enemy_z e\<rfloor> gridX OCCUPIED)
               else outOr N gridX (cellIsNot g \<lfloor>enemy_z e\<rfloor> gridX OCCUPIED)) of
           Inl err \<Rightarrow> (e, Some err)
         | Inr bx \<Rightarrow>
            (let e1 = (if bx then e\<lparr>enemy_vx := enemy_vx e * (- 1)\<rparr> else e);
                 nextX1 = (if bx then enemy_x e1 + enemy_vx e1 else nextX)
             in case (if enemy_type e = Ball
                      then outOr N gridZ (cellIs g gridZ \<lfloor>enemy_x e\<rfloor> OCCUPIED)
                      else outOr N gridZ (cellIsNot g gridZ \<lfloor>enemy_x e\<rfloor> OCCUPIED)) of
                  Inl err \<Rightarrow> (e1, Some err)
                | Inr bz \<Rightarrow>
                   (let e2 = (if bz then e1\<lparr>enemy_vz := enemy_vz e1 * (- 1)\<rparr> else e1);
                        nextZ1 = (if bz then enemy_z e2 + enemy_vz e2 else nextZ)
                    in (e2\<lparr>enemy_x := nextX1, enemy_z := nextZ1\<rparr>, None))))"

section \<open>Game\<close>

text \<open>
  What the engine sends to its collaborators, in the order it sends it: the calls to
  \<^verbatim>\<open>audio.playStart\<close>, \<^verbatim>\<open>audio.playTrailStep\<close>, \<^verbatim>\<open>audio.playCapture\<close>,
  \<^verbatim>\<open>audio.playWin\<close>, \<^verbatim>\<open>audio.playDeath\<close>, and the three messages of
  \<^verbatim>\<open>showMessage\<close> (level passed, victory, game over).
\<close>

datatype signal =
    PlayStart | PlayTrailStep | PlayCapture | PlayWin | PlayDeath
  | MsgLevelPassed nat | MsgVictory | MsgGameOver

text \<open>
  The fields of \<^verbatim>\<open>Game\<close> that the engine reads and writes. \<open>messageHidden\<close> is the
  class \<^verbatim>\<open>hidden\<close> of the message element, which \<^verbatim>\<open>animate\<close> tests and
  \<^verbatim>\<open>showMessage\<close> removes. The scene, the camera, the meshes and the statistics
  tracker are left out.
\<close>

record Game =
  level :: nat
  lives :: int
  capturedPercent :: int
  grid :: grid
  enemies :: "Enemy list"
  trailCount :: nat
  drone :: Drone
  messageHidden :: bool
  signals :: "signal list"

definition TARGET_PERCENT :: int where
  "TARGET_PERCENT = 80"

subsection \<open>The arithmetic of the percentage\<close>

text \<open>
  \<^verbatim>\<open>Math.floor((occupied / (GRID_SIZE * GRID_SIZE)) * 100)\<close> is computed on IEEE 754
  doubles: the quotient is rounded to the nearest double, and so is the product. The
  rounding decides the integer that \<^verbatim>\<open>Math.floor\<close> returns, so it is modelled:
  \<open>fl q\<close> is the double nearest to the rational \<open>q\<close> (ties to even, 53 significant
  bits), for the normal range, which holds every value met here.
\<close>

definition round_even :: "rat \<Rightarrow> int" where
  "round_even q =
     (let f = \<lfloor>q\<rfloor>; r = q - of_int f
      in if r < 1 / 2 then f else if 1 / 2 < r then f + 1 else if even f then f else f + 1)"

text \<open>The exponent \<open>e\<close> of a positive rational: \<open>2 powi e \<le> q < 2 powi (e + 1)\<close>.\<close>

definition expo :: "rat \<Rightarrow> int" where
  "expo q =
     (let k = bitlen (fst (quotient_of q)) - bitlen (snd (quotient_of q))
      in if q < 2 powi k then k - 1 else k)"

definition fl :: "rat \<Rightarrow> rat" where
  "fl q =
     (if q = 0 then 0
      else (let u = 2 powi (expo \<bar>q\<bar> - 52)
            in sgn q * of_int (round_even (\<bar>q\<bar> / u)) * u))"

text \<open>
  With \<^verbatim>\<open>GRID_SIZE = 0\<close> the source computes \<^verbatim>\<open>0 / 0\<close>, which is \<^verbatim>\<open>NaN\<close>, and no
  comparison with \<^verbatim>\<open>NaN\<close> holds; here the quotient is 0, and the comparison with the
  target fails as well.
\<close>

definition percentOf :: "nat \<Rightarrow> nat \<Rightarrow> int" where
  "percentOf N occupied = \<lfloor>fl (fl (of_nat occupied / of_nat (N * N)) * 100)\<rfloor>"

subsection \<open>The loops over the grid\<close>

definition initGrid :: "nat \<Rightarrow> grid" where
  "initGrid N =
     fold (\<lambda>c g. if fst c < 2 \<or> fst c \<ge> int N - 2 \<or> snd c < 2 \<or> snd c \<ge> int N - 2
                 then setCell g (snd c) (fst c) OCCUPIED else g)
          (scanCells N) (replicate N (replicate N EMPTY))"

definition countOccupied :: "nat \<Rightarrow> grid \<Rightarrow> nat" where
  "countOccupied N g =
     fold (\<lambda>c occupied. if gridAt g (snd c) (fst c) = Some OCCUPIED then occupied + 1 else occupied)
          (scanCells N) 0"

definition trailToOccupied :: "nat \<Rightarrow> grid \<Rightarrow> grid" where
  "trailToOccupied N g =
     fold (\<lambda>c g. if gridAt g (snd c) (fst c) = Some TRAIL then setCell g (snd c) (fst c) OCCUPIED else g)
          (scanCells N) g"

definition clearTrail :: "nat \<Rightarrow> grid \<Rightarrow> grid" where
  "clearTrail N g =
     fold (\<lambda>c g. if gridAt g (snd c) (fst c) = Some TRAIL then setCell g (snd c) (fst c) EMPTY else g)
          (scanCells N) g"

text \<open>
  \<^verbatim>\<open>fillAreas.forEach(area => area.forEach(([x, y]) => this.grid[y][x] = OCCUPIED))\<close>
\<close>

definition fillAreas :: "pos list list \<Rightarrow> grid \<Rightarrow> grid" where
  "fillAreas areas g = fold (\<lambda>area g. fold (\<lambda>c g. setCell g (snd c) (fst c) OCCUPIED) area g) areas g"

subsection \<open>The operations\<close>

definition emit :: "signal \<Rightarrow> Game \<Rightarrow> Game" where
  "emit sig s = s\<lparr>signals := signals s @ [sig]\<rparr>"

definition showMessage :: "signal \<Rightarrow> Game \<Rightarrow> Game" where
  "showMessage msg s = (emit msg s)\<lparr>messageHidden := False\<rparr>"

definition calculateCaptured :: "nat \<Rightarrow> Game \<Rightarrow> Game" where
  "calculateCaptured N s =
     (let occupied = countOccupied N (grid s);
          s1 = s\<lparr>capturedPercent := percentOf N occupied\<rparr>
      in if capturedPercent s1 \<ge> TARGET_PERCENT
         then (let s2 = emit PlayWin s1
               in if level s2 < 3 then showMessage (MsgLevelPassed (level s2)) s2
                  else showMessage MsgVictory s2)
         else s1)"

definition handleCapture :: "nat \<Rightarrow> Game \<Rightarrow> Game" where
  "handleCapture N s =
     (let s1 = emit PlayCapture s;
          areas = getFillableAreas N (grid s1) (enemies s1);
          s2 = s1\<lparr>grid := fillAreas areas (grid s1)\<rparr>;
          s3 = s2\<lparr>grid := trailToOccupied N (grid s2)\<rparr>;
          s4 = s3\<lparr>trailCount := 0\<rparr>
      in calculateCaptured N s4)"

definition die :: "nat \<Rightarrow> Game \<Rightarrow> Game" where
  "die N s =
     (let s1 = emit PlayDeath s;
          s2 = s1\<lparr>lives := lives s1 - 1\<rparr>;
          s3 = s2\<lparr>grid := clearTrail N (grid s2)\<rparr>;
          s4 = s3\<lparr>trailCount := 0\<rparr>;
          s5 = s4\<lparr>drone := Drone_reset 1 1 (drone s4)\<rparr>
      in if lives s5 \<le> 0 then showMessage MsgGameOver s5 else s5)"

text \<open>
  The part of \<^verbatim>\<open>animate\<close> that handles the cell of the drone (from
  \<^verbatim>\<open>const gx = Math.floor(this.drone.x)\<close> to the update of \<^verbatim>\<open>lastX\<close> and
  \<^verbatim>\<open>lastZ\<close>). The read \<^verbatim>\<open>this.grid[gz][gx]\<close> throws when the row does not exist.
\<close>

definition cellTransition :: "nat \<Rightarrow> Game \<Rightarrow> Game \<times> error option" where
  "cellTransition N s =
     (let gx = \<lfloor>drone_x (drone s)\<rfloor>;
          gz = \<lfloor>drone_z (drone s)\<rfloor>
      in if gx \<noteq> drone_lastX (drone s) \<or> gz \<noteq> drone_lastZ (drone s)
         then (case readCell (grid s) gz gx of
                 Inl err \<Rightarrow> (s, Some err)
               | Inr currentCell \<Rightarrow>
                  (let s1 = (if currentCell = Some EMPTY
                             then emit PlayTrailStep
                                    (s\<lparr>grid := setCell (grid s) gz gx TRAIL,
                                       trailCount := trailCount s + 1\<rparr>)
                             else if currentCell = Some OCCUPIED \<and> trailCount s > 0
                             then handleCapture N s
                             else if currentCell = Some TRAIL
                             then die N s
                             else s)
                   in (s1\<lparr>drone := (drone s1)\<lparr>drone_lastX := gx, drone_lastZ := gz\<rparr>\<rparr>, None)))
         else (s, None))"

text \<open>
  The two collision tests in the body of \<^verbatim>\<open>this.enemies.forEach(enemy => ...)\<close>,
  for the entity \<open>e\<close> after its move: the contact with the drone, then the unfinished
  trail. The second test reads \<^verbatim>\<open>this.grid[Math.floor(enemy.z)][Math.floor(enemy.x)]\<close>
  and throws when the row does not exist.
\<close>

definition enemyCollide :: "nat \<Rightarrow> Enemy \<Rightarrow> Game \<Rightarrow> Game \<times> error option" where
  "enemyCollide N e s =
     (let dist = sqrt ((enemy_x e - drone_x (drone s))\<^sup>2 + (enemy_z e - drone_z (drone s))\<^sup>2);
          s1 = (if dist < 0.8 then die N s else s)
      in case readCell (grid s1) \<lfloor>enemy_z e\<rfloor> \<lfloor>enemy_x e\<rfloor> of
           Inl err \<Rightarrow> (s1, Some err)
         | Inr c \<Rightarrow> (if c = Some TRAIL then die N s1 else s1, None))"

text \<open>
  The body of the loop for the entity at index \<open>i\<close>: the entity moves, then the two
  collision tests run.
\<close>

definition enemyBody :: "nat \<Rightarrow> nat \<Rightarrow> Game \<Rightarrow> Game \<times> error option" where
  "enemyBody N i s =
     (case Enemy_update N (grid s) (enemies s ! i) of
        (e, Some err) \<Rightarrow> (s\<lparr>enemies := (enemies s)[i := e]\<rparr>, Some err)
      | (e, None) \<Rightarrow> enemyCollide N e (s\<lparr>enemies := (enemies s)[i := e]\<rparr>))"

text \<open>\<^verbatim>\<open>forEach\<close> over the indices that are left; a throw ends the loop.\<close>

fun forEachEnemy :: "nat \<Rightarrow> nat list \<Rightarrow> Game \<Rightarrow> Game \<times> error option" where
  "forEachEnemy N [] s = (s, None)"
| "forEachEnemy N (i # rest) s =
     (case enemyBody N i s of
        (s1, Some err) \<Rightarrow> (s1, Some err)
      | (s1, None) \<Rightarrow> forEachEnemy N rest s1)"

text \<open>
  One frame. The result is the state the frame leaves and the exception that ended it,
  if any: the assignments made before a throw stay, and the next frame is already
  requested when the body starts. With the message showing, the frame changes nothing
  of the engine.
\<close>

definition animate :: "nat \<Rightarrow> Game \<Rightarrow> Game \<times> error option" where
  "animate N s =
     (if messageHidden s
      then (let s1 = s\<lparr>drone := Drone_update N (drone s)\<rparr>
            in case cellTransition N s1 of
                 (s2, Some err) \<Rightarrow> (s2, Some err)
               | (s2, None) \<Rightarrow> forEachEnemy N [0..<length (enemies s2)] s2)
      else (s, None))"

subsection \<open>Input and level start\<close>

datatype key = ArrowUp | ArrowDown | ArrowLeft | ArrowRight | OtherKey

text \<open>The \<^verbatim>\<open>keydown\<close> listener (the keys w, s, a, d are the four arrows).\<close>

definition keydown :: "key \<Rightarrow> Game \<Rightarrow> Game" where
  "keydown k s =
     (let d = drone s
      in s\<lparr>drone :=
            (case k of
               ArrowUp \<Rightarrow> d\<lparr>drone_vx := 0, drone_vz := - drone_speed d\<rparr>
             | ArrowDown \<Rightarrow> d\<lparr>drone_vx := 0, drone_vz := drone_speed d\<rparr>
             | ArrowLeft \<Rightarrow> d\<lparr>drone_vx := - drone_speed d, drone_vz := 0\<rparr>
             | ArrowRight \<Rightarrow> d\<lparr>drone_vx := drone_speed d, drone_vz := 0\<rparr>
             | OtherKey \<Rightarrow> d)\<rparr>)"

text \<open>
  \<^verbatim>\<open>new Enemy(scene, x, z, type, speed)\<close>; \<open>r\<close> is the value of \<^verbatim>\<open>Math.random()\<close>
  that gives the angle.
\<close>

definition newEnemy :: "real \<Rightarrow> real \<Rightarrow> kind \<Rightarrow> real \<Rightarrow> real \<Rightarrow> Enemy" where
  "newEnemy x z t speed r =
     (let angle = r * pi * 2
      in \<lparr>enemy_x = x, enemy_z = z, enemy_type = t, enemy_speed = speed,
          enemy_vx = cos angle * speed, enemy_vz = sin angle * speed\<rparr>)"

text \<open>
  \<^verbatim>\<open>startLevel\<close>. \<open>rnd\<close> is the sequence of the values that \<^verbatim>\<open>Math.random()\<close>
  returns during the call: three for each ball (x, z, angle), then one for each mine.
\<close>

definition startLevel :: "nat \<Rightarrow> nat \<Rightarrow> (nat \<Rightarrow> real) \<Rightarrow> Game \<Rightarrow> Game" where
  "startLevel N lvl rnd s =
     (let s1 = s\<lparr>level := lvl, enemies := [], trailCount := 0, capturedPercent := 0,
                 grid := initGrid N, drone := Drone_reset 1 1 (drone s)\<rparr>;
          s2 = emit PlayStart s1;
          ballCount = (if lvl = 2 then 3 else if lvl = 3 then 5 else 2);
          mineCount = (if lvl = 2 then 1 else if lvl = 3 then 2 else (0::nat));
          ballSpeed = (if lvl = 2 then 0.08 else if lvl = 3 then 0.12 else 0.05);
          droneSpeed = (if lvl = 3 then 0.22 else 0.15);
          s3 = s2\<lparr>drone := (drone s2)\<lparr>drone_speed := droneSpeed\<rparr>\<rparr>;
          balls = map (\<lambda>i. newEnemy (5 + rnd (3 * i) * (real N - 10))
                                     (5 + rnd (3 * i + 1) * (real N - 10))
                                     Ball ballSpeed (rnd (3 * i + 2))) [0..<ballCount];
          mines = map (\<lambda>i. newEnemy (if i = 0 then real N - 2 else 2) (real N - 2)
                                     Mine ballSpeed (rnd (3 * ballCount + i))) [0..<mineCount];
          s4 = s3\<lparr>enemies := balls @ mines\<rparr>
      in calculateCaptured N s4)"

text \<open>
  A run of a level: key presses and frames, in any order, after \<^verbatim>\<open>startLevel\<close>. A
  frame that throws leaves the state it had reached; the next frame starts from it. The
  restart button and the grid-size selector end the run (both call \<^verbatim>\<open>startLevel\<close>)
  and are not events of it.
\<close>

datatype event = KeyDown key | Frame

definition step :: "nat \<Rightarrow> event \<Rightarrow> Game \<Rightarrow> Game" where
  "step N ev s = (case ev of KeyDown k \<Rightarrow> keydown k s | Frame \<Rightarrow> fst (animate N s))"

definition run :: "nat \<Rightarrow> event list \<Rightarrow> Game \<Rightarrow> Game" where
  "run N evs s = fold (step N) evs s"

section \<open>Properties stated about the engine\<close>

text \<open>The controlled unit is on the field: its position is in \<open>[0, N) \<times> [0, N)\<close>.\<close>

definition inside :: "nat \<Rightarrow> Drone \<Rightarrow> bool" where
  "inside N d = (0 \<le> drone_x d \<and> drone_x d < real N \<and> 0 \<le> drone_z d \<and> drone_z d < real N)"

text \<open>
  The reflect condition of an entity kind on the tested cell, in the words of the
  specification: a ball reflects on \<^verbatim>\<open>OCCUPIED\<close>, a mine on anything else.
\<close>

definition reflectsOn :: "kind \<Rightarrow> cell option \<Rightarrow> bool" where
  "reflectsOn k c = (case k of Ball \<Rightarrow> c = Some OCCUPIED | Mine \<Rightarrow> c \<noteq> Some OCCUPIED)"

text \<open>The cells of the two-cell-thick frame that \<^verbatim>\<open>initGrid\<close> marks.\<close>

definition border :: "nat \<Rightarrow> pos \<Rightarrow> bool" where
  "border N p = (fst p < 2 \<or> fst p \<ge> int N - 2 \<or> snd p < 2 \<or> snd p \<ge> int N - 2)"

text \<open>
  The words of the region solver's contract: the \<^verbatim>\<open>EMPTY\<close> cells of the grid, the
  four neighbours of a cell, the neighbour relation inside a set of cells, and the
  cells the solver must return: the \<^verbatim>\<open>EMPTY\<close> cells from which no \<^verbatim>\<open>EMPTY\<close> cell
  holding the floored position of a hostile entity can be reached through \<^verbatim>\<open>EMPTY\<close>
  neighbours.
\<close>

definition emptyCells :: "nat \<Rightarrow> grid \<Rightarrow> pos set" where
  "emptyCells N g = {p. inBounds N p \<and> gridAt g (snd p) (fst p) = Some EMPTY}"

definition adjacent :: "pos \<Rightarrow> pos \<Rightarrow> bool" where
  "adjacent p q = (\<bar>fst p - fst q\<bar> + \<bar>snd p - snd q\<bar> = 1)"

definition link :: "pos set \<Rightarrow> (pos \<times> pos) set" where
  "link S = {(p, q). p \<in> S \<and> q \<in> S \<and> adjacent p q}"

definition threatened :: "nat \<Rightarrow> grid \<Rightarrow> Enemy list \<Rightarrow> pos \<Rightarrow> bool" where
  "threatened N g es p =
     (\<exists>q. q \<in> emptyCells N g \<and> enemyAt es q \<and> (p, q) \<in> (link (emptyCells N g))\<^sup>*)"

definition fillable :: "nat \<Rightarrow> grid \<Rightarrow> Enemy list \<Rightarrow> pos set" where
  "fillable N g es = {p. p \<in> emptyCells N g \<and> \<not> threatened N g es p}"

subsection \<open>Concrete states\<close>

text \<open>The grid of \<^verbatim>\<open>initGrid\<close> for \<^verbatim>\<open>GRID_SIZE = 6\<close>, with a trail on the row 2.\<close>

definition trailGrid6 :: grid where
  "trailGrid6 =
     [[OCCUPIED, OCCUPIED, OCCUPIED, OCCUPIED, OCCUPIED, OCCUPIED],
      [OCCUPIED, OCCUPIED, OCCUPIED, OCCUPIED, OCCUPIED, OCCUPIED],
      [OCCUPIED, OCCUPIED, TRAIL, TRAIL, OCCUPIED, OCCUPIED],
      [OCCUPIED, OCCUPIED, EMPTY, EMPTY, OCCUPIED, OCCUPIED],
      [OCCUPIED, OCCUPIED, OCCUPIED, OCCUPIED, OCCUPIED, OCCUPIED],
      [OCCUPIED, OCCUPIED, OCCUPIED, OCCUPIED, OCCUPIED, OCCUPIED]]"

text \<open>A ball in the lower region, about to cross into the cell \<open>(2, 2)\<close> of the trail.\<close>

definition lowerBall :: Enemy where
  "lowerBall = \<lparr>enemy_x = 2.5, enemy_z = 3.02, enemy_type = Ball, enemy_speed = 0.05,
                enemy_vx = 0, enemy_vz = - 0.05\<rparr>"

text \<open>A ball that has left the grid through the upper edge.\<close>

definition strayBall :: Enemy where
  "strayBall = \<lparr>enemy_x = 2.5, enemy_z = - 0.02, enemy_type = Ball, enemy_speed = 0.05,
                enemy_vx = 0.05, enemy_vz = 0.05\<rparr>"

text \<open>The drone on the last cell of the trail, flying right towards the border.\<close>

definition closingDrone :: Drone where
  "closingDrone = \<lparr>drone_x = 3.9, drone_z = 2.5, drone_vx = 0.15, drone_vz = 0,
                   drone_lastX = 3, drone_lastZ = 2, drone_speed = 0.15\<rparr>"

definition closingGame :: Game where
  "closingGame = \<lparr>level = 1, lives = 3, capturedPercent = 88, grid = trailGrid6,
                  enemies = [lowerBall], trailCount = 2, drone = closingDrone,
                  messageHidden = True, signals = [PlayStart, PlayTrailStep, PlayTrailStep]\<rparr>"

text \<open>The drone at the left edge, flying left.\<close>

definition edgeDrone :: Drone where
  "edgeDrone = \<lparr>drone_x = 0.1, drone_z = 1, drone_vx = - 0.15, drone_vz = 0,
                drone_lastX = 0, drone_lastZ = 1, drone_speed = 0.15\<rparr>"

text \<open>\<open>lowerBall\<close> after its step on \<open>trailGrid6\<close>: it stands on the trail cell \<open>(2, 2)\<close>.\<close>

definition movedBall :: Enemy where
  "movedBall = lowerBall\<lparr>enemy_z := 2.97\<rparr>"

text \<open>\<open>trailGrid6\<close> after the trail has been turned into \<^verbatim>\<open>OCCUPIED\<close> cells.\<close>

definition capturedGrid6 :: grid where
  "capturedGrid6 =
     [[OCCUPIED, OCCUPIED, OCCUPIED, OCCUPIED, OCCUPIED, OCCUPIED],
      [OCCUPIED, OCCUPIED, OCCUPIED, OCCUPIED, OCCUPIED, OCCUPIED],
      [OCCUPIED, OCCUPIED, OCCUPIED, OCCUPIED, OCCUPIED, OCCUPIED],
      [OCCUPIED, OCCUPIED, EMPTY, EMPTY, OCCUPIED, OCCUPIED],
      [OCCUPIED, OCCUPIED, OCCUPIED, OCCUPIED, OCCUPIED, OCCUPIED],
      [OCCUPIED, OCCUPIED, OCCUPIED, OCCUPIED, OCCUPIED, OCCUPIED]]"

text \<open>\<open>lowerBall\<close> after its step on \<open>capturedGrid6\<close>: reflected on the z-axis.\<close>

definition bouncedBall :: Enemy where
  "bouncedBall = lowerBall\<lparr>enemy_vz := 0.05, enemy_z := 3.07\<rparr>"

text \<open>The drone has turned back and stands on the cell \<open>(2, 2)\<close> of its own trail.\<close>

definition crossingGame :: Game where
  "crossingGame = closingGame\<lparr>drone := closingDrone\<lparr>drone_x := 2.95, drone_vx := - 0.15\<rparr>\<rparr>"

text \<open>The state after the capture of \<open>closingGame\<close>, and the same grid with a ball
  that stands on an \<^verbatim>\<open>OCCUPIED\<close> cell in the corner.\<close>

definition capturedGame :: Game where
  "capturedGame = closingGame\<lparr>grid := capturedGrid6, enemies := [bouncedBall], trailCount := 0,
                              capturedPercent := 94\<rparr>"

definition cornerBall :: Enemy where
  "cornerBall = \<lparr>enemy_x = 4.01, enemy_z = 4.01, enemy_type = Ball, enemy_speed = 0.05,
                 enemy_vx = - 0.03, enemy_vz = - 0.04\<rparr>"

definition idleGame :: Game where
  "idleGame = capturedGame\<lparr>enemies := [cornerBall]\<rparr>"

text \<open>\<open>idleGame\<close> with the drone one step further, on the \<^verbatim>\<open>OCCUPIED\<close> cell \<open>(4, 2)\<close>,
  a cell it has not recorded yet.\<close>

definition enteringGame :: Game where
  "enteringGame = idleGame\<lparr>drone := closingDrone\<lparr>drone_x := 4.05\<rparr>\<rparr>"

text \<open>A tick that lays trail: the drone of \<open>closingGame\<close> one cell to the left, on the
  grid before the capture, entering the \<^verbatim>\<open>EMPTY\<close> cell \<open>(3, 3)\<close> from above.\<close>

definition layingGame :: Game where
  "layingGame = closingGame\<lparr>drone := closingDrone\<lparr>drone_x := 3.5, drone_z := 2.9,
                                                     drone_vx := 0, drone_vz := 0.15\<rparr>\<rparr>"

text \<open>
  The default grid, \<^verbatim>\<open>GRID_SIZE = 50\<close>, after one capture of a block of 11 rows and
  31 columns in the corner behind the frame: 384 cells of the frame and 341 captured
  cells are \<^verbatim>\<open>OCCUPIED\<close>.
\<close>

definition blockGrid50 :: grid where
  "blockGrid50 =
     replicate 2 (replicate 50 OCCUPIED)
     @ replicate 11 (replicate 33 OCCUPIED @ replicate 15 EMPTY @ replicate 2 OCCUPIED)
     @ replicate 35 (replicate 2 OCCUPIED @ replicate 46 EMPTY @ replicate 2 OCCUPIED)
     @ replicate 2 (replicate 50 OCCUPIED)"

subsection \<open>The words of the other claims\<close>

text \<open>The frame in which the drone, after its move, stands on a new cell that is
  \<^verbatim>\<open>OCCUPIED\<close>, with a trail behind it.\<close>

definition captureTick :: "nat \<Rightarrow> Game \<Rightarrow> bool" where
  "captureTick N s =
     (let d = Drone_update N (drone s); gx = \<lfloor>drone_x d\<rfloor>; gz = \<lfloor>drone_z d\<rfloor>
      in messageHidden s \<and> (gx \<noteq> drone_lastX d \<or> gz \<noteq> drone_lastZ d) \<and>
         gridAt (grid s) gz gx = Some OCCUPIED \<and> 0 < trailCount s)"

text \<open>
  The order of a tick in the words of the specification: the motion of the controlled
  unit and of all hostile entities first, then the capture and death checks (the cell
  of the unit, then the two collision tests of every entity).
\<close>

fun forEachCollide :: "nat \<Rightarrow> Enemy list \<Rightarrow> Game \<Rightarrow> Game \<times> error option" where
  "forEachCollide N [] s = (s, None)"
| "forEachCollide N (e # rest) s =
     (case enemyCollide N e s of
        (s1, Some err) \<Rightarrow> (s1, Some err)
      | (s1, None) \<Rightarrow> forEachCollide N rest s1)"

definition animateMotionFirst :: "nat \<Rightarrow> Game \<Rightarrow> Game \<times> error option" where
  "animateMotionFirst N s =
     (if messageHidden s
      then (let s1 = s\<lparr>drone := Drone_update N (drone s)\<rparr>;
                s2 = s1\<lparr>enemies := map (\<lambda>e. fst (Enemy_update N (grid s1) e)) (enemies s1)\<rparr>
            in case cellTransition N s2 of
                 (s3, Some err) \<Rightarrow> (s3, Some err)
               | (s3, None) \<Rightarrow> forEachCollide N (enemies s3) s3)
      else (s, None))"

text \<open>
  The end of the cell check, \<^verbatim>\<open>this.drone.lastX = gx; this.drone.lastZ = gz\<close>: the
  cell the controlled unit has entered is recorded.
\<close>

definition recordCell :: "int \<Rightarrow> int \<Rightarrow> Game \<Rightarrow> Game" where
  "recordCell gx gz s = s\<lparr>drone := (drone s)\<lparr>drone_lastX := gx, drone_lastZ := gz\<rparr>\<rparr>"

text \<open>
  The order of a tick in the words of C9 as amended, written over the list of the
  hostile entities: the entities that have had their turn, with their new positions,
  and the entities still to come. An entity's turn is its move, against the grid as it is at
  that moment, and right after it its two collision tests; the next entity moves only
  after that.
\<close>

fun entitiesInTurn :: "nat \<Rightarrow> Enemy list \<Rightarrow> Enemy list \<Rightarrow> Game \<Rightarrow> Game \<times> error option" where
  "entitiesInTurn N moved [] s = (s, None)"
| "entitiesInTurn N moved (e # rest) s =
     (case Enemy_update N (grid s) e of
        (e', Some err) \<Rightarrow> (s\<lparr>enemies := moved @ e' # rest\<rparr>, Some err)
      | (e', None) \<Rightarrow>
         (case enemyCollide N e' (s\<lparr>enemies := moved @ e' # rest\<rparr>) of
            (s1, Some err) \<Rightarrow> (s1, Some err)
          | (s1, None) \<Rightarrow> entitiesInTurn N (moved @ [e']) rest s1))"

text \<open>
  The tick: the controlled unit moves; then its cell check runs, on a state in which
  the hostile entities are those of the start of the tick; then the hostile entities of
  the start of the tick take their turns in list order.
\<close>

definition tickInOrder :: "nat \<Rightarrow> Game \<Rightarrow> Game \<times> error option" where
  "tickInOrder N s =
     (if messageHidden s
      then (case cellTransition N (s\<lparr>drone := Drone_update N (drone s)\<rparr>) of
              (s2, Some err) \<Rightarrow> (s2, Some err)
            | (s2, None) \<Rightarrow> entitiesInTurn N [] (enemies s) s2)
      else (s, None))"

text \<open>
  The effect of one death event, from the state \<open>s\<close> before it to the state \<open>s'\<close> after
  it, in the words of the specification.
\<close>

definition deathEffect :: "Game \<Rightarrow> Game \<Rightarrow> bool" where
  "deathEffect s s' =
     (count_list (signals s') PlayDeath = count_list (signals s) PlayDeath + 1 \<and>
      lives s' = lives s - 1 \<and>
      (\<forall>x y. gridAt (grid s') y x =
                (if gridAt (grid s) y x = Some TRAIL then Some EMPTY else gridAt (grid s) y x)) \<and>
      trailCount s' = 0 \<and>
      drone_x (drone s') = 1 \<and> drone_z (drone s') = 1)"

subsection \<open>Invariants used in the proofs\<close>

definition bfsInv :: "nat \<Rightarrow> grid \<Rightarrow> Enemy list \<Rightarrow> pos \<Rightarrow> pos set
    \<Rightarrow> pos list \<Rightarrow> pos set \<Rightarrow> pos list \<Rightarrow> bool \<Rightarrow> bool" where
  "bfsInv N g es s vis0 queue vis area hasEnemy =
     (set (area @ queue) = vis - vis0 \<and> distinct (area @ queue) \<and> vis0 \<subseteq> vis \<and>
      s \<in> vis - vis0 \<and> vis - vis0 \<subseteq> emptyCells N g \<and>
      (\<forall>p\<in>set area. \<forall>q. (p, q) \<in> link (emptyCells N g) \<longrightarrow> q \<in> vis) \<and>
      (\<forall>p\<in>vis - vis0. (s, p) \<in> (link (vis - vis0))\<^sup>*) \<and>
      hasEnemy = (\<exists>p\<in>set area. enemyAt es p))"

definition scanInv :: "nat \<Rightarrow> grid \<Rightarrow> Enemy list \<Rightarrow> pos set \<Rightarrow> pos set \<times> pos list list \<Rightarrow> bool" where
  "scanInv N g es scanned va =
     (fst va \<subseteq> emptyCells N g \<and>
      (\<forall>p\<in>fst va. \<forall>q. (p, q) \<in> link (emptyCells N g) \<longrightarrow> q \<in> fst va) \<and>
      scanned \<inter> emptyCells N g \<subseteq> fst va \<and>
      set (concat (snd va)) = {p \<in> fst va. \<not> threatened N g es p} \<and>
      distinct (concat (snd va)) \<and>
      (\<forall>a\<in>set (snd va). a \<noteq> [] \<and> (\<forall>p\<in>set a. \<forall>q\<in>set a. (p, q) \<in> (link (set a))\<^sup>*)))"

definition noTrail :: "grid \<Rightarrow> bool" where
  "noTrail g = (\<forall>x y. gridAt g y x \<noteq> Some TRAIL)"

text \<open>The grid \<open>g'\<close> is well formed and has every \<^verbatim>\<open>OCCUPIED\<close> cell of \<open>g\<close>.\<close>

definition keepsOccupied :: "nat \<Rightarrow> grid \<Rightarrow> grid \<Rightarrow> bool" where
  "keepsOccupied N g g' =
     (wf_grid N g' \<and> (\<forall>x y. gridAt g y x = Some OCCUPIED \<longrightarrow> gridAt g' y x = Some OCCUPIED))"

section \<open>Proofs: the search of the region solver ends\<close>

lemma finite_inBounds: "finite {p. inBounds N p}"
proof -
  have "{p. inBounds N p} \<subseteq> {0..<int N} \<times> {0..<int N}"
    by (auto simp: inBounds_def)
  then show ?thesis by (rule finite_subset) simp
qed

lemma unvisited_insert:
  "inBounds N n \<Longrightarrow> n \<notin> vis \<Longrightarrow> unvisited N (insert n vis) < unvisited N vis"
  unfolding unvisited_def
  by (intro psubset_card_mono) (auto simp: finite_inBounds)

lemma visitNeighbor_measure:
  "2 * unvisited N (snd (visitNeighbor N g n qv)) + length (fst (visitNeighbor N g n qv))
     \<le> 2 * unvisited N (snd qv) + length (fst qv)"
proof (cases "visitNeighbor N g n qv = qv")
  case True
  then show ?thesis by simp
next
  case False
  then have "inBounds N n" "n \<notin> snd qv"
    and eq: "visitNeighbor N g n qv = (fst qv @ [n], insert n (snd qv))"
    by (auto simp: visitNeighbor_def inBounds_def split: if_splits)
  from unvisited_insert[OF this(1,2)] show ?thesis by (simp add: eq)
qed

lemma fold_visitNeighbor_measure:
  "2 * unvisited N (snd (fold (visitNeighbor N g) ns qv))
      + length (fst (fold (visitNeighbor N g) ns qv))
     \<le> 2 * unvisited N (snd qv) + length (fst qv)"
proof (induction ns arbitrary: qv)
  case Nil
  then show ?case by simp
next
  case (Cons n ns)
  show ?case
    using Cons.IH[of "visitNeighbor N g n qv"] visitNeighbor_measure[of N g n qv] by simp
qed

text \<open>
  Every pass of the loop takes one cell off the queue, and every cell put on the queue
  is a cell of the grid that was not visited before: the loop ends.
\<close>

termination bfs
proof (relation "measure (\<lambda>(N, g, es, queue, vis, area, hasEnemy).
                    2 * unvisited N vis + length queue)")
  show "wf (measure (\<lambda>(N, g, es, queue, vis, area, hasEnemy).
                    2 * unvisited N vis + length queue))"
    by simp
next
  fix N g es c queue vis area hasEnemy qv
  assume "qv = fold (visitNeighbor N g) (neighbors c) (queue, vis)"
  then show "((N, g, es, fst qv, snd qv, area @ [c], if enemyAt es c then True else hasEnemy),
              (N, g, es, c # queue, vis, area, hasEnemy))
       \<in> measure (\<lambda>(N, g, es, queue, vis, area, hasEnemy).
                    2 * unvisited N vis + length queue)"
    using fold_visitNeighbor_measure[of N g "neighbors c" "(queue, vis)"] by simp
qed

declare bfs.simps [simp del]

section \<open>Proofs: the motion of the controlled unit\<close>

lemma drone_emit [simp]: "drone (emit sig s) = drone s"
  by (simp add: emit_def)

lemma drone_showMessage [simp]: "drone (showMessage m s) = drone s"
  by (simp add: showMessage_def)

lemma drone_calculateCaptured [simp]: "drone (calculateCaptured N s) = drone s"
  by (simp add: calculateCaptured_def Let_def)

lemma drone_handleCapture [simp]: "drone (handleCapture N s) = drone s"
  by (simp add: handleCapture_def Let_def)

lemma drone_die: "drone (die N s) = Drone_reset 1 1 (drone s)"
  by (simp add: die_def Let_def)

lemma inside_reset: "1 < N \<Longrightarrow> inside N (Drone_reset 1 1 d)"
  by (simp add: inside_def Drone_reset_def)

lemma inside_Drone_update: "inside N d \<Longrightarrow> inside N (Drone_update N d)"
  by (simp add: inside_def Drone_update_def Let_def)

lemma inside_die: "1 < N \<Longrightarrow> inside N (drone (die N s))"
  by (simp add: drone_die inside_reset)

lemma inside_last [simp]: "inside N (d\<lparr>drone_lastX := a, drone_lastZ := b\<rparr>) = inside N d"
  by (simp add: inside_def)

lemma inside_cellTransition:
  assumes "1 < N" "inside N (drone s)"
  shows "inside N (drone (fst (cellTransition N s)))"
  using assms
  by (auto simp: cellTransition_def Let_def inside_die split: sum.splits)

lemma inside_enemyBody:
  assumes "1 < N" "inside N (drone s)"
  shows "inside N (drone (fst (enemyBody N i s)))"
  using assms
  by (auto simp: enemyBody_def enemyCollide_def Let_def inside_die
           split: sum.splits prod.splits option.splits)

lemma inside_forEachEnemy:
  assumes "1 < N" "inside N (drone s)"
  shows "inside N (drone (fst (forEachEnemy N is s)))"
  using assms
proof (induction "is" arbitrary: s)
  case Nil
  then show ?case by simp
next
  case (Cons i rest)
  from inside_enemyBody[OF Cons.prems, of i] Cons.IH[OF Cons.prems(1)]
  show ?case by (auto split: prod.splits option.splits)
qed

lemma inside_animate:
  assumes "1 < N" "inside N (drone s)"
  shows "inside N (drone (fst (animate N s)))"
proof (cases "messageHidden s")
  case False
  with assms show ?thesis by (simp add: animate_def)
next
  case True
  let ?s1 = "s\<lparr>drone := Drone_update N (drone s)\<rparr>"
  have 1: "inside N (drone ?s1)" using assms(2) by (simp add: inside_Drone_update)
  have 2: "inside N (drone (fst (cellTransition N ?s1)))"
    by (rule inside_cellTransition[OF assms(1) 1])
  show ?thesis
    using True 2 inside_forEachEnemy[OF assms(1) 2]
    by (auto simp: animate_def Let_def split: prod.splits option.splits)
qed

lemma inside_keydown: "inside N (drone (keydown k s)) = inside N (drone s)"
  by (cases k) (simp_all add: keydown_def inside_def Let_def)

lemma inside_step: "1 < N \<Longrightarrow> inside N (drone s) \<Longrightarrow> inside N (drone (step N ev s))"
  by (cases ev) (simp_all add: step_def inside_keydown inside_animate)

lemma inside_run: "1 < N \<Longrightarrow> inside N (drone s) \<Longrightarrow> inside N (drone (run N evs s))"
  unfolding run_def
  by (induction evs arbitrary: s) (simp_all add: inside_step)

text \<open>
  C7. A step of the controlled unit whose tentative position \<open>(x + vx, z + vz)\<close> is
  outside \<open>[0, N)\<close> on either axis leaves the unit where it is; a step from a position
  in \<open>[0, N) \<times> [0, N)\<close> ends in \<open>[0, N) \<times> [0, N)\<close>, whatever the velocity; and so does
  every sequence of key presses and frames of the engine, on a grid that has the
  level-start cell \<open>(1, 1)\<close>, to which a death moves the unit.
\<close>

theorem drone_boundary_containment:
  "(\<not> (0 \<le> drone_x d + drone_vx d \<and> drone_x d + drone_vx d < real N \<and>
        0 \<le> drone_z d + drone_vz d \<and> drone_z d + drone_vz d < real N)
      \<longrightarrow> Drone_update N d = d) \<and>
   (inside N d \<longrightarrow> inside N (Drone_update N d)) \<and>
   (1 < N \<and> inside N (drone s) \<longrightarrow> inside N (drone (run N evs s)))"
proof (intro conjI impI)
  assume "\<not> (0 \<le> drone_x d + drone_vx d \<and> drone_x d + drone_vx d < real N \<and>
        0 \<le> drone_z d + drone_vz d \<and> drone_z d + drone_vz d < real N)"
  then show "Drone_update N d = d"
    by (auto simp: Drone_update_def Let_def)
next
  assume "inside N d"
  then show "inside N (Drone_update N d)" by (rule inside_Drone_update)
next
  assume "1 < N \<and> inside N (drone s)"
  then show "inside N (drone (run N evs s))" by (simp add: inside_run)
qed

theorem drone_boundary_containment_witness:
  "Drone_update 6 edgeDrone = edgeDrone \<and>
   inside 6 (Drone_update 6 edgeDrone) \<and>
   inside 6 (drone (run 6 [KeyDown ArrowUp, Frame, Frame] closingGame))"
  using drone_boundary_containment
          [of edgeDrone 6 closingGame "[KeyDown ArrowUp, Frame, Frame]"]
  by (simp add: edgeDrone_def closingGame_def closingDrone_def inside_def)

section \<open>Proofs: the death event and the velocity\<close>

text \<open>
  C5, as the specification states it, fails: \<^verbatim>\<open>die\<close> calls
  \<^verbatim>\<open>this.drone.reset(1, 1)\<close>, which assigns 0 to \<^verbatim>\<open>vx\<close> and \<^verbatim>\<open>vz\<close>. The drone
  of \<open>closingGame\<close> flies right with \<open>vx = 0.15\<close>; after the death event its \<open>vx\<close>
  is another value.
\<close>

theorem death_keeps_velocity_counterexample:
  "drone_vx (drone (die 6 closingGame)) \<noteq> drone_vx (drone closingGame)"
  by (simp add: drone_die Drone_reset_def closingGame_def closingDrone_def)

text \<open>
  C5, amended. After a death event both velocity components of the controlled unit
  are 0, whatever they were before: the unit stands at \<open>(1, 1)\<close> until a key is pressed.
\<close>

theorem death_resets_velocity:
  "drone_vx (drone (die N s)) = 0 \<and> drone_vz (drone (die N s)) = 0 \<and>
   drone_x (drone (die N s)) = 1 \<and> drone_z (drone (die N s)) = 1"
  by (simp add: drone_die Drone_reset_def)

section \<open>Proofs: the step of a hostile entity\<close>

lemma readCell_wf:
  "wf_grid N g \<Longrightarrow>
     readCell g y x = (if 0 \<le> y \<and> y < int N then Inr (gridAt g y x) else Inl TypeError)"
  by (auto simp: readCell_def gridAt_def elemAt_def wf_grid_def)

text \<open>
  C6, as the specification states it, fails for a position outside the rows of the
  grid: the x-axis test reads \<^verbatim>\<open>grid[Math.floor(this.z)][gridX]\<close>, and the row
  \<^verbatim>\<open>grid[-1]\<close> is \<^verbatim>\<open>undefined\<close>. The step of \<open>strayBall\<close> throws and the ball stays
  where it was.
\<close>

theorem enemy_always_moves_counterexample:
  "Enemy_update 6 trailGrid6 strayBall = (strayBall, Some TypeError)"
  by (simp add: Enemy_update_def strayBall_def outOr_def cellIs_def readCell_def elemAt_def)

text \<open>
  C6, amended. On a well-formed grid, for every position, velocity and kind: when the
  tentative x-cell is inside the bounds and the row \<open>\<lfloor>z\<rfloor>\<close> of the current position
  is not a row of the grid, the step throws a TypeError and leaves the entity as it
  was. In every other case the step does not throw; the x-velocity is inverted exactly
  when the tentative x-cell is out of bounds or the cell \<open>[\<lfloor>z\<rfloor>][\<lfloor>x + vx\<rfloor>]\<close>
  meets the reflect condition of the kind (\<^verbatim>\<open>OCCUPIED\<close> for a ball, anything else for
  a mine), the z-velocity exactly when the tentative z-cell is out of bounds or the
  cell \<open>[\<lfloor>z + vz\<rfloor>][\<lfloor>x\<rfloor>]\<close> meets it; and the new position is the old one plus the
  resulting velocity, on each axis (one reflection at most, and the entity moves).
\<close>

theorem enemy_reflection_rules:
  assumes "wf_grid N g"
  shows "Enemy_update N g e =
     (let gridX = \<lfloor>enemy_x e + enemy_vx e\<rfloor>;
          gridZ = \<lfloor>enemy_z e + enemy_vz e\<rfloor>;
          bx = (gridX < 0 \<or> int N \<le> gridX \<or>
                reflectsOn (enemy_type e) (gridAt g \<lfloor>enemy_z e\<rfloor> gridX));
          bz = (gridZ < 0 \<or> int N \<le> gridZ \<or>
                reflectsOn (enemy_type e) (gridAt g gridZ \<lfloor>enemy_x e\<rfloor>));
          vx1 = (if bx then - enemy_vx e else enemy_vx e);
          vz1 = (if bz then - enemy_vz e else enemy_vz e)
      in if 0 \<le> gridX \<and> gridX < int N \<and> \<not> (0 \<le> \<lfloor>enemy_z e\<rfloor> \<and> \<lfloor>enemy_z e\<rfloor> < int N)
         then (e, Some TypeError)
         else (e\<lparr>enemy_vx := vx1, enemy_vz := vz1,
                 enemy_x := enemy_x e + vx1, enemy_z := enemy_z e + vz1\<rparr>, None))"
proof (cases "enemy_type e")
  case Ball
  then show ?thesis
    using assms
    by (auto simp: Enemy_update_def Let_def outOr_def cellIs_def cellIsNot_def
          readCell_wf reflectsOn_def)
next
  case Mine
  then show ?thesis
    using assms
    by (auto simp: Enemy_update_def Let_def outOr_def cellIs_def cellIsNot_def
          readCell_wf reflectsOn_def)
qed

lemma wf_trailGrid6: "wf_grid 6 trailGrid6"
  by (simp add: wf_grid_def trailGrid6_def)

theorem enemy_reflection_rules_witness:
  "Enemy_update 6 trailGrid6 (lowerBall\<lparr>enemy_x := 3.98, enemy_vx := 0.05\<rparr>) =
     (lowerBall\<lparr>enemy_vx := - 0.05, enemy_vz := - 0.05, enemy_x := 3.93, enemy_z := 2.97\<rparr>,
      None)"
  using enemy_reflection_rules
          [OF wf_trailGrid6, of "lowerBall\<lparr>enemy_x := 3.98, enemy_vx := 0.05\<rparr>"]
  by (simp add: lowerBall_def reflectsOn_def gridAt_def elemAt_def trailGrid6_def Let_def)

section \<open>Proofs: the loops over the grid\<close>

lemma gridAt_setCell:
  "gridAt (setCell g y x v) y' x' =
     (if y' = y \<and> x' = x \<and> gridAt g y x \<noteq> None then Some v else gridAt g y' x')"
  by (auto simp: gridAt_def setCell_def elemAt_def nth_list_update nat_eq_iff split: option.splits)

lemma wf_setCell: "wf_grid N g \<Longrightarrow> wf_grid N (setCell g y x v)"
  by (auto simp: wf_grid_def setCell_def list_all_length nth_list_update)

lemma gridAt_wf: "wf_grid N g \<Longrightarrow> (gridAt g y x \<noteq> None) = inBounds N (x, y)"
  by (auto simp: wf_grid_def gridAt_def elemAt_def inBounds_def list_all_length split: option.splits)

lemma gridAt_Some_inBounds: "wf_grid N g \<Longrightarrow> gridAt g y x = Some c \<Longrightarrow> inBounds N (x, y)"
  using gridAt_wf[of N g y x] by simp

lemma set_scanCells: "set (scanCells N) = {p. inBounds N p}"
proof (rule set_eqI)
  fix p :: pos
  obtain a b where p: "p = (a, b)" by (cases p)
  show "p \<in> set (scanCells N) \<longleftrightarrow> p \<in> {p. inBounds N p}"
  proof
    assume "p \<in> set (scanCells N)"
    then show "p \<in> {p. inBounds N p}"
      by (auto simp: scanCells_def inBounds_def)
  next
    assume "p \<in> {p. inBounds N p}"
    then have ab: "0 \<le> a" "a < int N" "0 \<le> b" "b < int N"
      by (simp_all add: p inBounds_def)
    then have "nat a < N" "nat b < N" "a = int (nat a)" "b = int (nat b)" by auto
    then have "(a, b) \<in> (\<lambda>x. (int x, int (nat b))) ` {0..<N}" "nat b \<in> {0..<N}"
      by (auto simp: image_iff intro!: bexI[of _ "nat a"])
    then show "p \<in> set (scanCells N)"
      unfolding p scanCells_def by (auto simp del: int_nat_eq)
  qed
qed

lemma distinct_scanCells: "distinct (scanCells N)"
  unfolding scanCells_def
  by (rule distinct_concat) (auto simp: distinct_map inj_on_def)

lemma grid_ext:
  assumes "wf_grid N g" "wf_grid N g'"
    and "\<And>x y. inBounds N (x, y) \<Longrightarrow> gridAt g y x = gridAt g' y x"
  shows "g = g'"
proof (rule nth_equalityI)
  show "length g = length g'" using assms by (simp add: wf_grid_def)
next
  fix i assume i: "i < length g"
  then have iN: "i < N" using assms by (simp add: wf_grid_def)
  have li: "length (g ! i) = N" "length (g' ! i) = N"
    using assms iN by (auto simp: wf_grid_def list_all_length)
  show "g ! i = g' ! i"
  proof (rule nth_equalityI)
    show "length (g ! i) = length (g' ! i)" using li by simp
  next
    fix j assume "j < length (g ! i)"
    then have jN: "j < N" using li by simp
    have "inBounds N (int j, int i)" using iN jN by (simp add: inBounds_def)
    from assms(3)[OF this] show "g ! i ! j = g' ! i ! j"
      using assms(1,2) iN jN li by (simp add: gridAt_def elemAt_def wf_grid_def)
  qed
qed

text \<open>A loop over cells whose body writes one value \<open>v\<close> to the cells that meet a test.\<close>

lemma fold_cells_gridAt:
  assumes F: "\<And>c g. F c g = (if P c (gridAt g (snd c) (fst c)) then setCell g (snd c) (fst c) v else g)"
    and "distinct cs"
  shows "gridAt (fold F cs g) y x =
     (if (x, y) \<in> set cs \<and> P (x, y) (gridAt g y x) \<and> gridAt g y x \<noteq> None then Some v
      else gridAt g y x)"
  using assms(2)
proof (induction cs arbitrary: g)
  case Nil
  then show ?case by simp
next
  case (Cons c cs)
  have step: "gridAt (F c g) y x =
      (if (x, y) = c \<and> P c (gridAt g y x) \<and> gridAt g y x \<noteq> None then Some v else gridAt g y x)"
    by (cases c) (auto simp: F gridAt_setCell)
  from Cons have IH: "gridAt (fold F cs (F c g)) y x =
     (if (x, y) \<in> set cs \<and> P (x, y) (gridAt (F c g) y x) \<and> gridAt (F c g) y x \<noteq> None then Some v
      else gridAt (F c g) y x)"
    by simp
  from Cons.prems have "c \<notin> set cs" by simp
  then show ?case
    unfolding fold_simps IH step by auto
qed

lemma fold_cells_wf:
  assumes F: "\<And>c g. F c g = (if P c (gridAt g (snd c) (fst c)) then setCell g (snd c) (fst c) v else g)"
    and "wf_grid N g"
  shows "wf_grid N (fold F cs g)"
  using assms(2)
  by (induction cs arbitrary: g) (auto simp: F wf_setCell)

lemma gridAt_trailToOccupied:
  "wf_grid N g \<Longrightarrow> gridAt (trailToOccupied N g) y x =
     (if gridAt g y x = Some TRAIL then Some OCCUPIED else gridAt g y x)"
  unfolding trailToOccupied_def
  by (subst fold_cells_gridAt[where P = "\<lambda>c v. v = Some TRAIL" and v = OCCUPIED])
     (auto simp: distinct_scanCells set_scanCells dest: gridAt_Some_inBounds)

lemma gridAt_clearTrail:
  "wf_grid N g \<Longrightarrow> gridAt (clearTrail N g) y x =
     (if gridAt g y x = Some TRAIL then Some EMPTY else gridAt g y x)"
  unfolding clearTrail_def
  by (subst fold_cells_gridAt[where P = "\<lambda>c v. v = Some TRAIL" and v = EMPTY])
     (auto simp: distinct_scanCells set_scanCells dest: gridAt_Some_inBounds)

lemma wf_trailToOccupied: "wf_grid N g \<Longrightarrow> wf_grid N (trailToOccupied N g)"
  unfolding trailToOccupied_def
  by (rule fold_cells_wf[where P = "\<lambda>c v. v = Some TRAIL" and v = OCCUPIED]) auto

lemma wf_clearTrail: "wf_grid N g \<Longrightarrow> wf_grid N (clearTrail N g)"
  unfolding clearTrail_def
  by (rule fold_cells_wf[where P = "\<lambda>c v. v = Some TRAIL" and v = EMPTY]) auto

lemma wf_replicate: "wf_grid N (replicate N (replicate N c))"
  by (simp add: wf_grid_def list_all_length)

lemma wf_initGrid: "wf_grid N (initGrid N)"
  unfolding initGrid_def
  by (rule fold_cells_wf[where P = "\<lambda>c v. border N c" and v = OCCUPIED])
     (auto simp: border_def wf_replicate)

lemma gridAt_replicate:
  "gridAt (replicate N (replicate N c)) y x = (if inBounds N (x, y) then Some c else None)"
  by (auto simp: gridAt_def elemAt_def inBounds_def)

lemma gridAt_initGrid:
  "gridAt (initGrid N) y x =
     (if inBounds N (x, y) then Some (if border N (x, y) then OCCUPIED else EMPTY) else None)"
  unfolding initGrid_def
  by (subst fold_cells_gridAt[where P = "\<lambda>c v. border N c" and v = OCCUPIED])
     (auto simp: distinct_scanCells set_scanCells border_def gridAt_replicate)

lemma gridAt_fold_setCell:
  "gridAt (fold (\<lambda>c g. setCell g (snd c) (fst c) v) cs g) y x =
     (if (x, y) \<in> set cs \<and> gridAt g y x \<noteq> None then Some v else gridAt g y x)"
proof (induction cs arbitrary: g)
  case Nil
  then show ?case by simp
next
  case (Cons c cs)
  show ?case
    by (cases c) (auto simp: Cons.IH gridAt_setCell)
qed

lemma wf_fold_setCell:
  "wf_grid N g \<Longrightarrow> wf_grid N (fold (\<lambda>c g. setCell g (snd c) (fst c) v) cs g)"
  by (induction cs arbitrary: g) (auto simp: wf_setCell)

lemma gridAt_fillAreas:
  "gridAt (fillAreas areas g) y x =
     (if (x, y) \<in> set (concat areas) \<and> gridAt g y x \<noteq> None then Some OCCUPIED else gridAt g y x)"
  unfolding fillAreas_def
proof (induction areas arbitrary: g)
  case Nil
  then show ?case by simp
next
  case (Cons a areas)
  show ?case
    by (auto simp: Cons.IH gridAt_fold_setCell)
qed

lemma wf_fillAreas: "wf_grid N g \<Longrightarrow> wf_grid N (fillAreas areas g)"
  unfolding fillAreas_def
  by (induction areas arbitrary: g) (auto simp: wf_fold_setCell)

section \<open>Proofs: the region solver\<close>

lemma adjacent_neighbors: "adjacent c q \<longleftrightarrow> q \<in> set (neighbors c)"
  by (cases c; cases q) (auto simp: adjacent_def neighbors_def)

lemma adjacent_sym: "adjacent p q \<Longrightarrow> adjacent q p"
  by (simp add: adjacent_def abs_minus_commute)

lemma sym_link: "sym (link S)"
  by (auto simp: sym_def link_def adjacent_sym)

lemma link_mono: "S \<subseteq> T \<Longrightarrow> link S \<subseteq> link T"
  by (auto simp: link_def)

lemma link_rtrancl_mono: "S \<subseteq> T \<Longrightarrow> (p, q) \<in> (link S)\<^sup>* \<Longrightarrow> (p, q) \<in> (link T)\<^sup>*"
  using rtrancl_mono[OF link_mono] by blast

lemma link_rtrancl_sym: "(p, q) \<in> (link S)\<^sup>* \<Longrightarrow> (q, p) \<in> (link S)\<^sup>*"
  by (meson sym_rtrancl sym_link symD)

lemma link_rtrancl_in: "(p, q) \<in> (link S)\<^sup>* \<Longrightarrow> p \<in> S \<Longrightarrow> q \<in> S"
  by (induction rule: rtrancl_induct) (auto simp: link_def)

lemma visitNeighbor_cases:
  "visitNeighbor N g n (q, vis) =
     (if n \<in> emptyCells N g \<and> n \<notin> vis then (q @ [n], insert n vis) else (q, vis))"
  by (auto simp: visitNeighbor_def emptyCells_def inBounds_def)

lemma fold_visitNeighbor:
  "\<exists>new. fold (visitNeighbor N g) ns (q, vis) = (q @ new, vis \<union> set new) \<and> distinct new \<and>
         set new = {n \<in> set ns. n \<in> emptyCells N g} - vis"
proof (induction ns arbitrary: q vis)
  case Nil
  then show ?case by simp
next
  case (Cons n ns)
  show ?case
  proof (cases "n \<in> emptyCells N g \<and> n \<notin> vis")
    case True
    from Cons.IH[of "q @ [n]" "insert n vis"] obtain new where
      new: "fold (visitNeighbor N g) ns (q @ [n], insert n vis)
              = ((q @ [n]) @ new, insert n vis \<union> set new)"
        "distinct new" "set new = {n \<in> set ns. n \<in> emptyCells N g} - insert n vis"
      by blast
    have "fold (visitNeighbor N g) (n # ns) (q, vis) = (q @ (n # new), vis \<union> set (n # new))"
      using True new(1) by (simp add: visitNeighbor_cases)
    moreover have "distinct (n # new)" using new(2,3) by auto
    moreover have "set (n # new) = {m \<in> set (n # ns). m \<in> emptyCells N g} - vis"
      using True new(3) by auto
    ultimately show ?thesis by blast
  next
    case False
    from Cons.IH[of q vis] obtain new where
      new: "fold (visitNeighbor N g) ns (q, vis) = (q @ new, vis \<union> set new)"
        "distinct new" "set new = {n \<in> set ns. n \<in> emptyCells N g} - vis"
      by blast
    have "fold (visitNeighbor N g) (n # ns) (q, vis) = (q @ new, vis \<union> set new)"
      using False new(1) by (auto simp add: visitNeighbor_cases)
    moreover have "set new = {m \<in> set (n # ns). m \<in> emptyCells N g} - vis"
      using False new(3) by auto
    ultimately show ?thesis using new(2) by blast
  qed
qed

lemma bfsInv_step:
  assumes inv: "bfsInv N g es s vis0 (c # queue) vis area hasEnemy"
    and new: "distinct new" "set new = {n \<in> set (neighbors c). n \<in> emptyCells N g} - vis"
  shows "bfsInv N g es s vis0 (queue @ new) (vis \<union> set new) (area @ [c])
           (if enemyAt es c then True else hasEnemy)"
proof -
  let ?V = "vis - vis0" and ?V' = "(vis \<union> set new) - vis0"
  from inv have
    i1: "set (area @ c # queue) = ?V" and i2: "distinct (area @ c # queue)" and
    i3: "vis0 \<subseteq> vis" and i4: "s \<in> ?V" and i5: "?V \<subseteq> emptyCells N g" and
    i6: "\<forall>p\<in>set area. \<forall>q. (p, q) \<in> link (emptyCells N g) \<longrightarrow> q \<in> vis" and
    i7: "\<forall>p\<in>?V. (s, p) \<in> (link ?V)\<^sup>*" and
    i8: "hasEnemy = (\<exists>p\<in>set area. enemyAt es p)"
    by (simp_all add: bfsInv_def)
  have newdisj: "set new \<inter> vis = {}" using new(2) by auto
  have cV: "c \<in> ?V" using i1 by auto
  have sub: "?V \<subseteq> ?V'" by auto
  have a1: "set ((area @ [c]) @ queue @ new) = ?V'"
    using i1 i3 newdisj by auto
  have a2: "distinct ((area @ [c]) @ queue @ new)"
    using i1 i2 new(1) newdisj by auto
  have a3: "vis0 \<subseteq> vis \<union> set new" using i3 by auto
  have a4: "s \<in> ?V'" using i4 by auto
  have a5: "?V' \<subseteq> emptyCells N g" using i5 new(2) by auto
  have a6: "\<forall>p\<in>set (area @ [c]). \<forall>q. (p, q) \<in> link (emptyCells N g) \<longrightarrow> q \<in> vis \<union> set new"
  proof (intro ballI allI impI)
    fix p q assume p: "p \<in> set (area @ [c])" and pq: "(p, q) \<in> link (emptyCells N g)"
    show "q \<in> vis \<union> set new"
    proof (cases "p = c")
      case True
      then have "q \<in> set (neighbors c)" "q \<in> emptyCells N g"
        using pq by (auto simp: link_def adjacent_neighbors)
      then show ?thesis using new(2) by auto
    next
      case False
      then have "p \<in> set area" using p by simp
      then show ?thesis using i6 pq by blast
    qed
  qed
  have a7: "\<forall>p\<in>?V'. (s, p) \<in> (link ?V')\<^sup>*"
  proof
    fix p assume p: "p \<in> ?V'"
    show "(s, p) \<in> (link ?V')\<^sup>*"
    proof (cases "p \<in> ?V")
      case True
      then show ?thesis using i7 link_rtrancl_mono[OF sub] by blast
    next
      case False
      then have pn: "p \<in> set new" using p by auto
      then have "adjacent c p" using new(2) by (auto simp: adjacent_neighbors)
      then have "(c, p) \<in> link ?V'" using cV p by (auto simp: link_def)
      moreover have "(s, c) \<in> (link ?V')\<^sup>*"
        using i7 cV link_rtrancl_mono[OF sub] by blast
      ultimately show ?thesis by (rule rtrancl_into_rtrancl[rotated])
    qed
  qed
  have a8: "(if enemyAt es c then True else hasEnemy) = (\<exists>p\<in>set (area @ [c]). enemyAt es p)"
    using i8 by auto
  show ?thesis
    unfolding bfsInv_def using a1 a2 a3 a4 a5 a6 a7 a8 by blast
qed

lemma bfs_inv:
  "bfsInv N g es s vis0 queue vis area hasEnemy \<Longrightarrow>
     (case bfs N g es queue vis area hasEnemy of
        (vis', area', he') \<Rightarrow> bfsInv N g es s vis0 [] vis' area' he')"
proof (induction N g es queue vis area hasEnemy rule: bfs.induct)
  case (1 N g es vis area hasEnemy)
  then show ?case by (simp add: bfs.simps)
next
  case (2 N g es c queue vis area hasEnemy)
  from fold_visitNeighbor[of N g "neighbors c" queue vis] obtain new where
    new: "fold (visitNeighbor N g) (neighbors c) (queue, vis) = (queue @ new, vis \<union> set new)"
      "distinct new" "set new = {n \<in> set (neighbors c). n \<in> emptyCells N g} - vis"
    by blast
  have "bfsInv N g es s vis0 (queue @ new) (vis \<union> set new) (area @ [c])
           (if enemyAt es c then True else hasEnemy)"
    by (rule bfsInv_step[OF "2.prems" new(2,3)])
  from "2.IH"[OF refl] this show ?case
    by (simp add: bfs.simps new(1) Let_def)
qed

lemma bfs_component:
  assumes closed: "\<forall>p\<in>vis0. \<forall>q. (p, q) \<in> link (emptyCells N g) \<longrightarrow> q \<in> vis0"
    and c: "c \<in> emptyCells N g" "c \<notin> vis0"
    and res: "bfs N g es [c] (insert c vis0) [] False = (vis', area, he)"
  shows "set area = {p. (c, p) \<in> (link (emptyCells N g))\<^sup>*}"
    and "vis' = vis0 \<union> set area"
    and "distinct area"
    and "he = (\<exists>p\<in>set area. enemyAt es p)"
    and "\<forall>p\<in>set area. (c, p) \<in> (link (set area))\<^sup>*"
proof -
  have "bfsInv N g es c vis0 [c] (insert c vis0) [] False"
    using c by (auto simp: bfsInv_def)
  from bfs_inv[OF this] have inv: "bfsInv N g es c vis0 [] vis' area he"
    by (simp add: res)
  let ?V = "vis' - vis0"
  from inv have
    i1: "set area = ?V" and i2: "distinct area" and i3: "vis0 \<subseteq> vis'" and
    i4: "c \<in> ?V" and i5: "?V \<subseteq> emptyCells N g" and
    i6: "\<forall>p\<in>set area. \<forall>q. (p, q) \<in> link (emptyCells N g) \<longrightarrow> q \<in> vis'" and
    i7: "\<forall>p\<in>?V. (c, p) \<in> (link ?V)\<^sup>*" and
    i8: "he = (\<exists>p\<in>set area. enemyAt es p)"
    by (simp_all add: bfsInv_def)
  show "vis' = vis0 \<union> set area" using i1 i3 by auto
  show "distinct area" by (rule i2)
  show "he = (\<exists>p\<in>set area. enemyAt es p)" by (rule i8)
  show "\<forall>p\<in>set area. (c, p) \<in> (link (set area))\<^sup>*" using i7 i1 by simp
  show "set area = {p. (c, p) \<in> (link (emptyCells N g))\<^sup>*}"
  proof (intro set_eqI iffI)
    fix p assume "p \<in> set area"
    then have "(c, p) \<in> (link ?V)\<^sup>*" using i7 i1 by simp
    then show "p \<in> {p. (c, p) \<in> (link (emptyCells N g))\<^sup>*}"
      using link_rtrancl_mono[OF i5] by simp
  next
    fix p assume "p \<in> {p. (c, p) \<in> (link (emptyCells N g))\<^sup>*}"
    then have "(c, p) \<in> (link (emptyCells N g))\<^sup>*" by simp
    then show "p \<in> set area"
    proof (induction rule: rtrancl_induct)
      case base
      then show ?case using i4 i1 by simp
    next
      case (step p q)
      from step.IH i6 step.hyps(2) have qv: "q \<in> vis'" by blast
      have "q \<notin> vis0"
      proof
        assume "q \<in> vis0"
        moreover have "(q, p) \<in> link (emptyCells N g)"
          using step.hyps(2) sym_link[of "emptyCells N g"] by (auto dest: symD)
        ultimately have "p \<in> vis0" using closed by blast
        then show False using step.IH i1 by simp
      qed
      then show ?case using qv i1 by simp
    qed
  qed
qed

lemma scanStep_inv:
  assumes inv: "scanInv N g es scanned va" and c: "inBounds N c"
  shows "scanInv N g es (insert c scanned) (scanStep N g es c va)"
proof (cases "gridAt g (snd c) (fst c) = Some EMPTY \<and> c \<notin> fst va")
  case False
  then have "scanStep N g es c va = va" by (auto simp: scanStep_def)
  moreover have "c \<in> emptyCells N g \<Longrightarrow> c \<in> fst va"
    using False by (auto simp: emptyCells_def)
  ultimately show ?thesis using inv by (auto simp: scanInv_def)
next
  case True
  obtain vis areas where va: "va = (vis, areas)" by (cases va)
  let ?E = "link (emptyCells N g)"
  from inv have
    j1: "vis \<subseteq> emptyCells N g" and
    j2: "\<forall>p\<in>vis. \<forall>q. (p, q) \<in> ?E \<longrightarrow> q \<in> vis" and
    j3: "scanned \<inter> emptyCells N g \<subseteq> vis" and
    j4: "set (concat areas) = {p \<in> vis. \<not> threatened N g es p}" and
    j5: "distinct (concat areas)" and
    j6: "\<forall>a\<in>set areas. a \<noteq> [] \<and> (\<forall>p\<in>set a. \<forall>q\<in>set a. (p, q) \<in> (link (set a))\<^sup>*)"
    by (simp_all add: scanInv_def va)
  have ce: "c \<in> emptyCells N g" "c \<notin> vis"
    using True c by (auto simp: emptyCells_def va)
  obtain vis' area he where res: "bfs N g es [c] (insert c vis) [] False = (vis', area, he)"
    by (cases "bfs N g es [c] (insert c vis) [] False") auto
  note b = bfs_component[OF j2 ce res]
  let ?C = "{p. (c, p) \<in> ?E\<^sup>*}"
  have Csub: "?C \<subseteq> emptyCells N g"
    using link_rtrancl_in[of c _ "emptyCells N g"] ce(1) by auto
  have cC: "c \<in> set area" using b(1) by simp
  have step: "scanStep N g es c va = (vis', if \<not> he then areas @ [area] else areas)"
    using True by (simp add: scanStep_def va res Let_def)
  have k1: "vis' \<subseteq> emptyCells N g" using b(1,2) j1 Csub by auto
  have k2: "\<forall>p\<in>vis'. \<forall>q. (p, q) \<in> ?E \<longrightarrow> q \<in> vis'"
  proof (intro ballI allI impI)
    fix p q assume p: "p \<in> vis'" and pq: "(p, q) \<in> ?E"
    show "q \<in> vis'"
    proof (cases "p \<in> vis")
      case True
      then show ?thesis using j2 pq b(2) by blast
    next
      case False
      then have "(c, p) \<in> ?E\<^sup>*" using p b(1,2) by auto
      then have "(c, q) \<in> ?E\<^sup>*" using pq by (rule rtrancl_into_rtrancl)
      then show ?thesis using b(1,2) by auto
    qed
  qed
  have k3: "insert c scanned \<inter> emptyCells N g \<subseteq> vis'"
    using j3 b(2) cC by auto
  have disj: "set area \<inter> vis = {}"
  proof (rule ccontr)
    assume "set area \<inter> vis \<noteq> {}"
    then obtain p where p: "p \<in> set area" "p \<in> vis" by auto
    then have "(c, p) \<in> ?E\<^sup>*" using b(1) by simp
    then have "(p, c) \<in> ?E\<^sup>*" by (rule link_rtrancl_sym)
    then have "c \<in> vis" using p(2)
    proof (induction rule: rtrancl_induct)
      case base
      then show ?case .
    next
      case (step y z)
      then show ?case using j2 by blast
    qed
    then show False using ce(2) by simp
  qed
  have thr: "\<And>p. p \<in> set area \<Longrightarrow> threatened N g es p = he"
  proof -
    fix p assume p: "p \<in> set area"
    then have cp: "(c, p) \<in> ?E\<^sup>*" using b(1) by simp
    show "threatened N g es p = he"
    proof
      assume "threatened N g es p"
      then obtain q where q: "q \<in> emptyCells N g" "enemyAt es q" "(p, q) \<in> ?E\<^sup>*"
        by (auto simp: threatened_def)
      then have "(c, q) \<in> ?E\<^sup>*" using cp by simp
      then have "q \<in> set area" using b(1) by simp
      then show he using q(2) b(4) by blast
    next
      assume he
      then obtain q where q: "q \<in> set area" "enemyAt es q" using b(4) by blast
      then have "(c, q) \<in> ?E\<^sup>*" "q \<in> emptyCells N g" using b(1) Csub by auto
      moreover have "(p, c) \<in> ?E\<^sup>*" using cp by (rule link_rtrancl_sym)
      ultimately have "q \<in> emptyCells N g \<and> enemyAt es q \<and> (p, q) \<in> ?E\<^sup>*"
        using q(2) by (meson rtrancl_trans)
      then show "threatened N g es p"
        unfolding threatened_def by blast
    qed
  qed
  have k4: "set (concat (if \<not> he then areas @ [area] else areas))
              = {p \<in> vis'. \<not> threatened N g es p}"
    using j4 b(2) thr by auto
  have k5: "distinct (concat (if \<not> he then areas @ [area] else areas))"
    using j5 j4 b(3) disj by auto
  have conn: "\<forall>p\<in>set area. \<forall>q\<in>set area. (p, q) \<in> (link (set area))\<^sup>*"
  proof (intro ballI)
    fix p q assume "p \<in> set area" "q \<in> set area"
    then have "(c, p) \<in> (link (set area))\<^sup>*" "(c, q) \<in> (link (set area))\<^sup>*"
      using b(5) by auto
    then show "(p, q) \<in> (link (set area))\<^sup>*"
      using link_rtrancl_sym[of c p "set area"] by (meson rtrancl_trans)
  qed
  have k6: "\<forall>a\<in>set (if \<not> he then areas @ [area] else areas).
      a \<noteq> [] \<and> (\<forall>p\<in>set a. \<forall>q\<in>set a. (p, q) \<in> (link (set a))\<^sup>*)"
    using j6 conn cC by auto
  show ?thesis
    unfolding scanInv_def step using k1 k2 k3 k4 k5 k6 by simp
qed

lemma fold_scanStep_inv:
  "scanInv N g es scanned va \<Longrightarrow> \<forall>c\<in>set cs. inBounds N c \<Longrightarrow>
     scanInv N g es (scanned \<union> set cs) (fold (scanStep N g es) cs va)"
proof (induction cs arbitrary: scanned va)
  case Nil
  then show ?case by simp
next
  case (Cons c cs)
  from Cons.prems have "scanInv N g es (insert c scanned) (scanStep N g es c va)"
    by (simp add: scanStep_inv)
  from Cons.IH[OF this] Cons.prems(2) show ?case by simp
qed

lemma scan_result:
  "scanInv N g es {p. inBounds N p} (fold (scanStep N g es) (scanCells N) ({}, []))"
proof -
  have "scanInv N g es {} ({}, [])" by (simp add: scanInv_def)
  from fold_scanStep_inv[OF this, of "scanCells N"] show ?thesis
    by (simp add: set_scanCells)
qed

lemma getFillableAreas_union:
  "set (concat (getFillableAreas N g es)) = fillable N g es"
proof -
  let ?va = "fold (scanStep N g es) (scanCells N) ({}, [])"
  from scan_result[of N g es] have
    "fst ?va \<subseteq> emptyCells N g" "{p. inBounds N p} \<inter> emptyCells N g \<subseteq> fst ?va"
    "set (concat (snd ?va)) = {p \<in> fst ?va. \<not> threatened N g es p}"
    by (simp_all add: scanInv_def)
  moreover have "emptyCells N g \<subseteq> {p. inBounds N p}" by (auto simp: emptyCells_def)
  ultimately show ?thesis
    unfolding getFillableAreas_def fillable_def by auto
qed

lemma getFillableAreas_distinct: "distinct (concat (getFillableAreas N g es))"
  using scan_result[of N g es] by (simp add: scanInv_def getFillableAreas_def)

lemma getFillableAreas_connected:
  "a \<in> set (getFillableAreas N g es) \<Longrightarrow> p \<in> set a \<Longrightarrow> q \<in> set a \<Longrightarrow>
     (p, q) \<in> (link (set a))\<^sup>*"
  using scan_result[of N g es] by (simp add: scanInv_def getFillableAreas_def)

lemma getFillableAreas_nonempty: "a \<in> set (getFillableAreas N g es) \<Longrightarrow> a \<noteq> []"
  using scan_result[of N g es] by (auto simp: scanInv_def getFillableAreas_def)

lemma distinct_concat_disjoint:
  "distinct (concat xss) \<Longrightarrow> i < j \<Longrightarrow> j < length xss \<Longrightarrow> set (xss ! i) \<inter> set (xss ! j) = {}"
proof (induction xss arbitrary: i j)
  case Nil
  then show ?case by simp
next
  case (Cons xs xss)
  show ?case
  proof (cases i)
    case 0
    then obtain j' where j: "j = Suc j'" using Cons.prems(2) by (cases j) auto
    then have "xss ! j' \<in> set xss" using Cons.prems(3) by simp
    then show ?thesis using Cons.prems(1) 0 j by auto
  next
    case (Suc i')
    then obtain j' where j: "j = Suc j'" using Cons.prems(2) by (cases j) auto
    with Suc Cons.prems Cons.IH[of i' j'] show ?thesis by simp
  qed
qed

text \<open>
  C1. For every grid and every list of hostile entities: the cells of the regions that
  \<^verbatim>\<open>getFillableAreas\<close> returns are exactly the \<^verbatim>\<open>EMPTY\<close> cells that are not
  4-connected, through \<^verbatim>\<open>EMPTY\<close> cells, to an \<^verbatim>\<open>EMPTY\<close> cell holding the floored
  position of a hostile entity; any two cells of a returned region are joined by a path
  of neighbours inside the region; and two different returned regions share no cell.
\<close>

theorem region_solver_correct:
  "set (concat (getFillableAreas N g es)) = fillable N g es \<and>
   (\<forall>a\<in>set (getFillableAreas N g es). \<forall>p\<in>set a. \<forall>q\<in>set a. (p, q) \<in> (link (set a))\<^sup>*) \<and>
   (\<forall>i j. i < j \<and> j < length (getFillableAreas N g es) \<longrightarrow>
      set (getFillableAreas N g es ! i) \<inter> set (getFillableAreas N g es ! j) = {})"
  using getFillableAreas_union getFillableAreas_connected
    distinct_concat_disjoint[OF getFillableAreas_distinct]
  by blast

lemma fillable_trailGrid6: "getFillableAreas 6 trailGrid6 [] = [[(2, 3), (3, 3)]]"
  by code_simp

lemma fillable_trailGrid6_ball: "getFillableAreas 6 trailGrid6 [lowerBall] = []"
  by code_simp

theorem region_solver_correct_witness:
  "fillable 6 trailGrid6 [] = {(2, 3), (3, 3)} \<and>
   ((2, 3), (3, 3)) \<in> (link {(2, 3), (3, 3)})\<^sup>* \<and>
   fillable 6 trailGrid6 [lowerBall] = {}"
  using region_solver_correct[of 6 trailGrid6 "[]"]
    region_solver_correct[of 6 trailGrid6 "[lowerBall]"]
  unfolding fillable_trailGrid6 fillable_trailGrid6_ball
  by auto

section \<open>Proofs: the operations of the engine\<close>

subsection \<open>What each operation does to the fields\<close>

lemma emit_fields [simp]:
  "grid (emit sig s) = grid s" "enemies (emit sig s) = enemies s"
  "trailCount (emit sig s) = trailCount s" "lives (emit sig s) = lives s"
  "capturedPercent (emit sig s) = capturedPercent s" "level (emit sig s) = level s"
  "messageHidden (emit sig s) = messageHidden s" "signals (emit sig s) = signals s @ [sig]"
  by (simp_all add: emit_def)

lemma showMessage_fields [simp]:
  "grid (showMessage m s) = grid s" "enemies (showMessage m s) = enemies s"
  "trailCount (showMessage m s) = trailCount s" "lives (showMessage m s) = lives s"
  "capturedPercent (showMessage m s) = capturedPercent s" "level (showMessage m s) = level s"
  "messageHidden (showMessage m s) = False" "signals (showMessage m s) = signals s @ [m]"
  by (simp_all add: showMessage_def)

lemma calculateCaptured_fields [simp]:
  "grid (calculateCaptured N s) = grid s" "enemies (calculateCaptured N s) = enemies s"
  "trailCount (calculateCaptured N s) = trailCount s" "lives (calculateCaptured N s) = lives s"
  "level (calculateCaptured N s) = level s"
  "capturedPercent (calculateCaptured N s) = percentOf N (countOccupied N (grid s))"
  by (simp_all add: calculateCaptured_def Let_def)

lemma handleCapture_fields [simp]:
  "grid (handleCapture N s) =
     trailToOccupied N (fillAreas (getFillableAreas N (grid s) (enemies s)) (grid s))"
  "enemies (handleCapture N s) = enemies s"
  "trailCount (handleCapture N s) = 0" "lives (handleCapture N s) = lives s"
  "level (handleCapture N s) = level s"
  "capturedPercent (handleCapture N s) = percentOf N (countOccupied N (grid (handleCapture N s)))"
  by (simp_all add: handleCapture_def Let_def)

lemma die_fields [simp]:
  "grid (die N s) = clearTrail N (grid s)" "enemies (die N s) = enemies s"
  "trailCount (die N s) = 0" "lives (die N s) = lives s - 1"
  "level (die N s) = level s" "capturedPercent (die N s) = capturedPercent s"
  "signals (die N s) = signals s @ PlayDeath # (if lives s - 1 \<le> 0 then [MsgGameOver] else [])"
  by (simp_all add: die_def Let_def)

subsection \<open>Grids without a trail\<close>

lemma fold_unchanged: "(\<And>c. c \<in> set cs \<Longrightarrow> F c g = g) \<Longrightarrow> fold F cs g = g"
  by (induction cs) simp_all

lemma clearTrail_noTrail: "noTrail g \<Longrightarrow> clearTrail N g = g"
  unfolding clearTrail_def by (rule fold_unchanged) (simp add: noTrail_def)

lemma trailToOccupied_noTrail: "noTrail g \<Longrightarrow> trailToOccupied N g = g"
  unfolding trailToOccupied_def by (rule fold_unchanged) (simp add: noTrail_def)

lemma noTrail_clearTrail: "wf_grid N g \<Longrightarrow> noTrail (clearTrail N g)"
  by (simp add: noTrail_def gridAt_clearTrail)

lemma noTrail_trailToOccupied: "wf_grid N g \<Longrightarrow> noTrail (trailToOccupied N g)"
  by (simp add: noTrail_def gridAt_trailToOccupied)

lemma wf_handleCapture: "wf_grid N (grid s) \<Longrightarrow> wf_grid N (grid (handleCapture N s))"
  by (simp add: wf_trailToOccupied wf_fillAreas)

lemma wf_die: "wf_grid N (grid s) \<Longrightarrow> wf_grid N (grid (die N s))"
  by (simp add: wf_clearTrail)

lemma noTrail_handleCapture: "wf_grid N (grid s) \<Longrightarrow> noTrail (grid (handleCapture N s))"
  by (simp add: noTrail_trailToOccupied wf_fillAreas)

lemma noTrail_die: "wf_grid N (grid s) \<Longrightarrow> noTrail (grid (die N s))"
  by (simp add: noTrail_clearTrail)

lemma readCell_noTrail: "noTrail g \<Longrightarrow> readCell g y x \<noteq> Inr (Some TRAIL)"
  by (auto simp: noTrail_def readCell_def gridAt_def split: option.splits)

subsection \<open>The loop over the hostile entities on a grid without a trail\<close>

lemma enemyBody_noTrail:
  assumes "noTrail (grid s)"
  shows "grid (fst (enemyBody N i s)) = grid s"
    and "trailCount s = 0 \<Longrightarrow> trailCount (fst (enemyBody N i s)) = 0"
    and "capturedPercent (fst (enemyBody N i s)) = capturedPercent s"
  using assms
  by (auto simp: enemyBody_def enemyCollide_def Let_def clearTrail_noTrail
           split: prod.splits option.splits sum.splits)

lemma forEachEnemy_noTrail:
  assumes "noTrail (grid s)"
  shows "grid (fst (forEachEnemy N is s)) = grid s \<and>
         (trailCount s = 0 \<longrightarrow> trailCount (fst (forEachEnemy N is s)) = 0) \<and>
         capturedPercent (fst (forEachEnemy N is s)) = capturedPercent s"
  using assms
proof (induction "is" arbitrary: s)
  case Nil
  then show ?case by simp
next
  case (Cons i rest)
  note b = enemyBody_noTrail[OF Cons.prems, of N i]
  obtain s1 r where eb: "enemyBody N i s = (s1, r)" by (cases "enemyBody N i s")
  with b have s1: "grid s1 = grid s" "trailCount s = 0 \<Longrightarrow> trailCount s1 = 0"
    "capturedPercent s1 = capturedPercent s" by simp_all
  show ?case
  proof (cases r)
    case None
    have "noTrail (grid s1)" using s1(1) Cons.prems by simp
    from Cons.IH[OF this] s1 show ?thesis by (simp add: eb None)
  next
    case (Some err)
    then show ?thesis using s1 by (simp add: eb)
  qed
qed

lemma fillAreas_in_grid:
  assumes "(x, y) \<in> set (concat (getFillableAreas N g es))"
  shows "gridAt g y x = Some EMPTY"
proof -
  from assms have "(x, y) \<in> fillable N g es"
    unfolding getFillableAreas_union .
  then show ?thesis by (simp add: fillable_def emptyCells_def)
qed

lemma gridAt_handleCapture:
  assumes "wf_grid N (grid s)"
  shows "gridAt (grid (handleCapture N s)) y x =
     (if (x, y) \<in> set (concat (getFillableAreas N (grid s) (enemies s))) \<or>
         gridAt (grid s) y x = Some TRAIL
      then Some OCCUPIED else gridAt (grid s) y x)"
  using assms fillAreas_in_grid[of x y N "grid s" "enemies s"]
  by (auto simp: gridAt_trailToOccupied wf_fillAreas gridAt_fillAreas)

lemma Drone_update_last [simp]:
  "drone_lastX (Drone_update N d) = drone_lastX d" "drone_lastZ (Drone_update N d) = drone_lastZ d"
  by (simp_all add: Drone_update_def Let_def)

lemma captureTick_cellTransition:
  assumes "wf_grid N (grid s)" "captureTick N s"
  shows "cellTransition N (s\<lparr>drone := Drone_update N (drone s)\<rparr>) =
     ((handleCapture N (s\<lparr>drone := Drone_update N (drone s)\<rparr>))
        \<lparr>drone := (Drone_update N (drone s))
            \<lparr>drone_lastX := \<lfloor>drone_x (Drone_update N (drone s))\<rfloor>,
             drone_lastZ := \<lfloor>drone_z (Drone_update N (drone s))\<rfloor>\<rparr>\<rparr>, None)"
proof -
  let ?d = "Drone_update N (drone s)"
  from assms(2) have c: "\<lfloor>drone_x ?d\<rfloor> \<noteq> drone_lastX ?d \<or> \<lfloor>drone_z ?d\<rfloor> \<noteq> drone_lastZ ?d"
    "gridAt (grid s) \<lfloor>drone_z ?d\<rfloor> \<lfloor>drone_x ?d\<rfloor> = Some OCCUPIED" "0 < trailCount s"
    by (simp_all add: captureTick_def Let_def)
  from gridAt_Some_inBounds[OF assms(1) c(2)]
  have "readCell (grid s) \<lfloor>drone_z ?d\<rfloor> \<lfloor>drone_x ?d\<rfloor> = Inr (Some OCCUPIED)"
    using c(2) by (simp add: readCell_wf[OF assms(1)] inBounds_def)
  then show ?thesis
    using c(1,3) by (auto simp: cellTransition_def Let_def)
qed

lemma captureTick_animate:
  assumes "wf_grid N (grid s)" "captureTick N s"
  shows "grid (fst (animate N s)) = grid (handleCapture N s)"
    and "trailCount (fst (animate N s)) = 0"
    and "capturedPercent (fst (animate N s)) = capturedPercent (handleCapture N s)"
proof -
  let ?s1 = "s\<lparr>drone := Drone_update N (drone s)\<rparr>"
  let ?s2 = "fst (cellTransition N ?s1)"
  have hid: "messageHidden s" using assms(2) by (simp add: captureTick_def Let_def)
  note ct = captureTick_cellTransition[OF assms]
  have hc: "grid (handleCapture N ?s1) = grid (handleCapture N s)"
    "capturedPercent (handleCapture N ?s1) = capturedPercent (handleCapture N s)"
    by simp_all
  have g2: "grid ?s2 = grid (handleCapture N s)" "trailCount ?s2 = 0"
    "capturedPercent ?s2 = capturedPercent (handleCapture N s)"
    unfolding ct using hc by simp_all
  have nt: "noTrail (grid ?s2)"
    unfolding g2(1) by (rule noTrail_handleCapture[OF assms(1)])
  have an: "animate N s = forEachEnemy N [0..<length (enemies ?s2)] ?s2"
    using hid by (simp add: animate_def Let_def ct)
  from forEachEnemy_noTrail[OF nt, of N "[0..<length (enemies ?s2)]"] g2
  show "grid (fst (animate N s)) = grid (handleCapture N s)"
    and "trailCount (fst (animate N s)) = 0"
    and "capturedPercent (fst (animate N s)) = capturedPercent (handleCapture N s)"
    unfolding an by simp_all
qed

text \<open>
  C2. On every tick (a frame with the message hidden, on a well-formed grid) where the
  new integer cell of the controlled unit differs from its last recorded cell, that
  cell is \<^verbatim>\<open>OCCUPIED\<close> and the trail length is positive: the grid the tick leaves
  is the grid of the start in which first the cells of the regions that the region
  solver returns for the grid and the entities of the start were set to
  \<^verbatim>\<open>OCCUPIED\<close>, and then every \<^verbatim>\<open>TRAIL\<close> cell; so every cell of a returned
  region and every \<^verbatim>\<open>TRAIL\<close> cell is \<^verbatim>\<open>OCCUPIED\<close> and every other cell is as
  before; the trail length is 0; and the captured percentage is the one computed from
  the grid after these changes.
\<close>

theorem capture_event:
  assumes "wf_grid N (grid s)" and "captureTick N s"
  shows "grid (fst (animate N s))
           = trailToOccupied N (fillAreas (getFillableAreas N (grid s) (enemies s)) (grid s)) \<and>
         (\<forall>x y. gridAt (grid (fst (animate N s))) y x =
            (if (x, y) \<in> set (concat (getFillableAreas N (grid s) (enemies s))) \<or>
                gridAt (grid s) y x = Some TRAIL
             then Some OCCUPIED else gridAt (grid s) y x)) \<and>
         trailCount (fst (animate N s)) = 0 \<and>
         capturedPercent (fst (animate N s))
           = percentOf N (countOccupied N (grid (fst (animate N s))))"
proof -
  note a = captureTick_animate[OF assms]
  have "\<forall>x y. gridAt (grid (fst (animate N s))) y x =
            (if (x, y) \<in> set (concat (getFillableAreas N (grid s) (enemies s))) \<or>
                gridAt (grid s) y x = Some TRAIL
             then Some OCCUPIED else gridAt (grid s) y x)"
    unfolding a(1) using gridAt_handleCapture[OF assms(1)] by blast
  moreover have "capturedPercent (fst (animate N s))
           = percentOf N (countOccupied N (grid (fst (animate N s))))"
    unfolding a(1) a(3) by simp
  ultimately show ?thesis using a(1,2) by simp
qed

lemma wf_closing: "wf_grid 6 (grid closingGame)"
  by (simp add: closingGame_def wf_trailGrid6)

lemma captureTick_closing: "captureTick 6 closingGame"
  by (simp add: captureTick_def closingGame_def closingDrone_def Drone_update_def Let_def
        gridAt_def elemAt_def trailGrid6_def)

lemma closingGame_fields:
  "grid closingGame = trailGrid6" "enemies closingGame = [lowerBall]"
  by (simp_all add: closingGame_def)

lemma trailGrid6_cells:
  "gridAt trailGrid6 2 2 = Some TRAIL" "gridAt trailGrid6 3 2 = Some EMPTY"
  by (simp_all add: gridAt_def elemAt_def trailGrid6_def)

theorem capture_event_witness:
  "gridAt (grid (fst (animate 6 closingGame))) 2 2 = Some OCCUPIED \<and>
   gridAt (grid (fst (animate 6 closingGame))) 3 2 = Some EMPTY \<and>
   trailCount (fst (animate 6 closingGame)) = 0"
proof -
  note c = capture_event[OF wf_closing captureTick_closing]
  from c have cells: "\<And>x y. gridAt (grid (fst (animate 6 closingGame))) y x =
      (if (x, y) \<in> set (concat (getFillableAreas 6 trailGrid6 [lowerBall])) \<or>
          gridAt trailGrid6 y x = Some TRAIL
       then Some OCCUPIED else gridAt trailGrid6 y x)"
    unfolding closingGame_fields by blast
  from c have "trailCount (fst (animate 6 closingGame)) = 0" by blast
  then show ?thesis
    by (simp add: cells fillable_trailGrid6_ball trailGrid6_cells)
qed

lemma enemyCollide_noTrail:
  "noTrail (grid s) \<Longrightarrow> grid (fst (enemyCollide N e s)) = grid s"
  by (auto simp: enemyCollide_def Let_def clearTrail_noTrail split: sum.splits)

lemma forEachCollide_noTrail:
  "noTrail (grid s) \<Longrightarrow> grid (fst (forEachCollide N es s)) = grid s"
proof (induction es arbitrary: s)
  case Nil
  then show ?case by simp
next
  case (Cons e es)
  obtain s1 r where ec: "enemyCollide N e s = (s1, r)" by (cases "enemyCollide N e s")
  with enemyCollide_noTrail[OF Cons.prems, of N e] have g: "grid s1 = grid s" by simp
  show ?case
  proof (cases r)
    case None
    with Cons.IH[of s1] g Cons.prems show ?thesis by (simp add: ec)
  next
    case (Some err)
    with g show ?thesis by (simp add: ec)
  qed
qed

lemma cellTransition_capture:
  assumes "wf_grid N (grid t)"
    and "\<lfloor>drone_x (drone t)\<rfloor> \<noteq> drone_lastX (drone t) \<or> \<lfloor>drone_z (drone t)\<rfloor> \<noteq> drone_lastZ (drone t)"
    and "gridAt (grid t) \<lfloor>drone_z (drone t)\<rfloor> \<lfloor>drone_x (drone t)\<rfloor> = Some OCCUPIED"
    and "0 < trailCount t"
  shows "cellTransition N t =
     ((handleCapture N t)\<lparr>drone := (drone t)\<lparr>drone_lastX := \<lfloor>drone_x (drone t)\<rfloor>,
                                             drone_lastZ := \<lfloor>drone_z (drone t)\<rfloor>\<rparr>\<rparr>, None)"
proof -
  from gridAt_Some_inBounds[OF assms(1,3)]
  have "readCell (grid t) \<lfloor>drone_z (drone t)\<rfloor> \<lfloor>drone_x (drone t)\<rfloor> = Inr (Some OCCUPIED)"
    using assms(3) by (simp add: readCell_wf[OF assms(1)] inBounds_def)
  then show ?thesis
    using assms(2,4) by (auto simp: cellTransition_def Let_def)
qed

lemma lowerBall_moves: "Enemy_update 6 trailGrid6 lowerBall = (movedBall, None)"
  by (simp add: Enemy_update_def lowerBall_def movedBall_def outOr_def cellIs_def readCell_def
        elemAt_def trailGrid6_def Let_def)

lemma fillable_trailGrid6_moved: "getFillableAreas 6 trailGrid6 [movedBall] = [[(2, 3), (3, 3)]]"
  unfolding movedBall_def by code_simp

lemma motionFirst_closing:
  "gridAt (grid (fst (animateMotionFirst 6 closingGame))) 3 2 = Some OCCUPIED"
proof -
  let ?s1 = "closingGame\<lparr>drone := Drone_update 6 (drone closingGame)\<rparr>"
  let ?s2 = "?s1\<lparr>enemies := [movedBall]\<rparr>"
  have s2: "?s1\<lparr>enemies := map (\<lambda>e. fst (Enemy_update 6 (grid ?s1) e)) (enemies ?s1)\<rparr> = ?s2"
    by (simp add: closingGame_fields lowerBall_moves)
  have wf: "wf_grid 6 (grid ?s2)" by (simp add: closingGame_fields wf_trailGrid6)
  have ct: "cellTransition 6 ?s2 =
     ((handleCapture 6 ?s2)\<lparr>drone := (drone ?s2)\<lparr>drone_lastX := \<lfloor>drone_x (drone ?s2)\<rfloor>,
                                             drone_lastZ := \<lfloor>drone_z (drone ?s2)\<rfloor>\<rparr>\<rparr>, None)"
    by (rule cellTransition_capture[OF wf])
       (simp_all add: closingGame_def closingDrone_def Drone_update_def Let_def
          gridAt_def elemAt_def trailGrid6_def)
  let ?s3 = "fst (cellTransition 6 ?s2)"
  have g3: "grid ?s3 = grid (handleCapture 6 ?s2)" unfolding ct by simp
  have nt: "noTrail (grid ?s3)" unfolding g3 by (rule noTrail_handleCapture[OF wf])
  have hid: "messageHidden closingGame" by (simp add: closingGame_def)
  have "animateMotionFirst 6 closingGame =
      (case cellTransition 6 ?s2 of
         (s3, Some err) \<Rightarrow> (s3, Some err)
       | (s3, None) \<Rightarrow> forEachCollide 6 (enemies s3) s3)"
    unfolding animateMotionFirst_def Let_def s2 by (simp only: hid if_True)
  also have "\<dots> = forEachCollide 6 (enemies ?s3) ?s3"
    by (simp only: ct prod.case option.case fst_conv)
  finally have "grid (fst (animateMotionFirst 6 closingGame)) = grid (handleCapture 6 ?s2)"
    using forEachCollide_noTrail[OF nt, of 6 "enemies ?s3"] g3 by simp
  then show ?thesis
    using gridAt_handleCapture[OF wf, where y = 3 and x = 2]
    by (simp add: closingGame_fields fillable_trailGrid6_moved trailGrid6_cells)
qed

text \<open>
  C9, as the specification states it, fails: \<^verbatim>\<open>animate\<close> runs the cell check of the
  drone, and with it the capture, before \<^verbatim>\<open>this.enemies.forEach\<close> moves any hostile
  entity. In \<open>closingGame\<close> the drone closes its trail while a ball in the lower region
  is about to cross into a trail cell. The source solves the regions with the ball
  where the previous frame left it, so the lower region stays \<^verbatim>\<open>EMPTY\<close>; with all
  motion resolved first the ball has left the lower region, and the region is captured.
\<close>

theorem motion_before_checks_counterexample:
  "gridAt (grid (fst (animate 6 closingGame))) 3 2
     \<noteq> gridAt (grid (fst (animateMotionFirst 6 closingGame))) 3 2"
proof -
  have "gridAt (grid (fst (animate 6 closingGame))) 3 2 = Some EMPTY"
    using captureTick_animate(1)[OF wf_closing captureTick_closing]
      gridAt_handleCapture[OF wf_closing, where y = 3 and x = 2]
    by (simp add: closingGame_fields fillable_trailGrid6_ball trailGrid6_cells)
  then show ?thesis by (simp add: motionFirst_closing)
qed

lemma enemies_enemyCollide [simp]: "enemies (fst (enemyCollide N e s)) = enemies s"
  by (auto simp: enemyCollide_def Let_def split: sum.splits)

lemma enemyBody_None:
  assumes "enemyBody N i s = (s1, None)"
  shows "snd (Enemy_update N (grid s) (enemies s ! i)) = None \<and>
         enemies s1 = (enemies s)[i := fst (Enemy_update N (grid s) (enemies s ! i))]"
proof (cases "Enemy_update N (grid s) (enemies s ! i)")
  case (Pair e r)
  show ?thesis
  proof (cases r)
    case None
    with Pair assms have "enemyCollide N e (s\<lparr>enemies := (enemies s)[i := e]\<rparr>) = (s1, None)"
      by (simp add: enemyBody_def)
    then have "enemies s1 = (enemies s)[i := e]"
      using enemies_enemyCollide[of N e "s\<lparr>enemies := (enemies s)[i := e]\<rparr>"] by simp
    then show ?thesis by (simp add: Pair None)
  next
    case (Some err)
    with Pair assms show ?thesis by (simp add: enemyBody_def)
  qed
qed

lemma forEachEnemy_moves:
  "noTrail (grid s) \<Longrightarrow> forEachEnemy N [k..<length (enemies s)] s = (s', None) \<Longrightarrow>
     enemies s' = take k (enemies s) @ map (\<lambda>e. fst (Enemy_update N (grid s) e)) (drop k (enemies s))"
proof (induction "length (enemies s) - k" arbitrary: k s)
  case 0
  then show ?case by simp
next
  case (Suc n)
  then have k: "k < length (enemies s)" by simp
  then have upt: "[k..<length (enemies s)] = k # [Suc k..<length (enemies s)]"
    by (simp add: upt_conv_Cons)
  obtain s1 r where eb: "enemyBody N k s = (s1, r)" by (cases "enemyBody N k s")
  have r: "r = None"
    using Suc.prems(2) unfolding upt by (cases r) (simp_all add: eb)
  from enemyBody_None[OF eb[unfolded r]] have
    e1: "enemies s1 = (enemies s)[k := fst (Enemy_update N (grid s) (enemies s ! k))]" by simp
  have g1: "grid s1 = grid s"
    using enemyBody_noTrail(1)[OF Suc.prems(1), of N k] by (simp add: eb)
  have len: "length (enemies s1) = length (enemies s)" by (simp add: e1)
  have rest: "forEachEnemy N [Suc k..<length (enemies s1)] s1 = (s', None)"
    using Suc.prems(2) unfolding upt by (simp add: eb r len)
  have "n = length (enemies s1) - Suc k" using Suc.hyps(2) len by simp
  from Suc.hyps(1)[OF this _ rest] Suc.prems(1) g1
  have "enemies s' = take (Suc k) (enemies s1)
          @ map (\<lambda>e. fst (Enemy_update N (grid s) e)) (drop (Suc k) (enemies s1))"
    by simp
  also have "take (Suc k) (enemies s1)
      = take k (enemies s) @ [fst (Enemy_update N (grid s) (enemies s ! k))]"
    using k by (simp add: e1 take_Suc_conv_app_nth)
  also have "drop (Suc k) (enemies s1) = drop (Suc k) (enemies s)"
    by (simp add: e1)
  finally show ?case
    using k by (simp add: Cons_nth_drop_Suc[symmetric])
qed

lemma enemies_cellTransition: "enemies (fst (cellTransition N t)) = enemies t"
  by (auto simp: cellTransition_def Let_def split: sum.splits)

lemma forEachEnemy_inTurn:
  "enemies s = moved @ todo \<Longrightarrow>
     forEachEnemy N [length moved..<length moved + length todo] s = entitiesInTurn N moved todo s"
proof (induction todo arbitrary: moved s)
  case Nil
  then show ?case by simp
next
  case (Cons e rest)
  have upt: "[length moved..<length moved + length (e # rest)]
               = length moved # [length (moved @ [e])..<length (moved @ [e]) + length rest]"
    using upt_conv_Cons[of "length moved" "length moved + length (e # rest)"] by simp
  have nth: "enemies s ! length moved = e" by (simp add: Cons.prems)
  have upd: "\<And>e'. (enemies s)[length moved := e'] = moved @ e' # rest"
    by (simp add: Cons.prems)
  obtain e' r where eu: "Enemy_update N (grid s) e = (e', r)"
    by (cases "Enemy_update N (grid s) e")
  show ?case
  proof (cases r)
    case (Some err)
    then show ?thesis
      unfolding upt by (simp add: enemyBody_def nth upd eu)
  next
    case None
    let ?s' = "s\<lparr>enemies := moved @ e' # rest\<rparr>"
    have eb: "enemyBody N (length moved) s = enemyCollide N e' ?s'"
      by (simp add: enemyBody_def nth upd eu None)
    obtain s1 r1 where ec: "enemyCollide N e' ?s' = (s1, r1)"
      by (cases "enemyCollide N e' ?s'")
    show ?thesis
    proof (cases r1)
      case (Some err)
      then show ?thesis
        unfolding upt by (simp add: eb ec eu None)
    next
      case r1: None
      have "enemies s1 = (moved @ [e']) @ rest"
        using enemies_enemyCollide[of N e' ?s'] by (simp add: ec)
      from Cons.IH[OF this]
      have "forEachEnemy N [length (moved @ [e'])..<length (moved @ [e']) + length rest] s1
              = entitiesInTurn N (moved @ [e']) rest s1" .
      then show ?thesis
        unfolding upt by (simp add: eb ec eu None r1)
    qed
  qed
qed

lemma animate_tickInOrder: "animate N s = tickInOrder N s"
proof (cases "messageHidden s")
  case False
  then show ?thesis by (simp add: animate_def tickInOrder_def)
next
  case True
  let ?s1 = "s\<lparr>drone := Drone_update N (drone s)\<rparr>"
  obtain s2 r where ct: "cellTransition N ?s1 = (s2, r)" by (cases "cellTransition N ?s1")
  have e2: "enemies s2 = enemies s"
    using enemies_cellTransition[of N ?s1] by (simp add: ct)
  show ?thesis
  proof (cases r)
    case (Some err)
    then show ?thesis using True by (simp add: animate_def tickInOrder_def Let_def ct)
  next
    case None
    have "forEachEnemy N [0..<length (enemies s2)] s2 = entitiesInTurn N [] (enemies s) s2"
      using forEachEnemy_inTurn[of s2 "[]" "enemies s" N] e2 by simp
    then show ?thesis using True by (simp add: animate_def tickInOrder_def Let_def ct None)
  qed
qed

text \<open>
  C9, amended. Within every tick the operations run in one fixed order, but motion is
  not fully resolved before the checks. Every frame is the tick in the order written
  above: the controlled unit moves; then its cell check (trail laying, capture or
  self-collision death) runs, and it moves no hostile entity, so that it sees the
  entities where the previous tick left them; then the hostile entities take their
  turns in list order, each one moved and at once checked for contact and trail
  collision before the next one moves. So on every tick on which the unit enters a new
  cell, the turns of the hostile entities start from the state in which the trail cell
  is already laid (the cell was \<^verbatim>\<open>EMPTY\<close>), the death event has already happened (the
  cell was \<^verbatim>\<open>TRAIL\<close>), or the capture event has already happened (the cell was
  \<^verbatim>\<open>OCCUPIED\<close>, with a trail), and the entities of that state are those of the start
  of the tick. In particular, on every tick with a capture event (as in C2), the cells
  that turn from \<^verbatim>\<open>EMPTY\<close> to \<^verbatim>\<open>OCCUPIED\<close> are exactly the cells the region solver's
  contract gives for the hostile entities where the previous tick left them; and,
  unless a step throws, every hostile entity is then moved once, against the grid as
  the capture left it.
\<close>

theorem tick_order:
  "animate N s = tickInOrder N s \<and>
   enemies (fst (cellTransition N s)) = enemies s \<and>
   (let d = Drone_update N (drone s); gx = \<lfloor>drone_x d\<rfloor>; gz = \<lfloor>drone_z d\<rfloor>;
        s1 = s\<lparr>drone := d\<rparr>
    in messageHidden s \<and> (gx \<noteq> drone_lastX d \<or> gz \<noteq> drone_lastZ d) \<longrightarrow>
         (readCell (grid s) gz gx = Inr (Some EMPTY) \<longrightarrow>
            animate N s =
              entitiesInTurn N [] (enemies s)
                (recordCell gx gz
                   (emit PlayTrailStep (s1\<lparr>grid := setCell (grid s) gz gx TRAIL,
                                           trailCount := trailCount s + 1\<rparr>)))) \<and>
         (readCell (grid s) gz gx = Inr (Some TRAIL) \<longrightarrow>
            animate N s = entitiesInTurn N [] (enemies s) (recordCell gx gz (die N s1))) \<and>
         (readCell (grid s) gz gx = Inr (Some OCCUPIED) \<and> 0 < trailCount s \<longrightarrow>
            animate N s = entitiesInTurn N [] (enemies s) (recordCell gx gz (handleCapture N s1)))) \<and>
   (wf_grid N (grid s) \<and> captureTick N s \<longrightarrow>
      {p. gridAt (grid s) (snd p) (fst p) = Some EMPTY \<and>
          gridAt (grid (fst (animate N s))) (snd p) (fst p) = Some OCCUPIED}
        = fillable N (grid s) (enemies s) \<and>
      (snd (animate N s) = None \<longrightarrow>
         enemies (fst (animate N s))
           = map (\<lambda>e. fst (Enemy_update N (grid (fst (animate N s))) e)) (enemies s)))"
proof (intro conjI)
  show t: "animate N s = tickInOrder N s" by (rule animate_tickInOrder)
  show "enemies (fst (cellTransition N s)) = enemies s" by (rule enemies_cellTransition)
  show "let d = Drone_update N (drone s); gx = \<lfloor>drone_x d\<rfloor>; gz = \<lfloor>drone_z d\<rfloor>;
        s1 = s\<lparr>drone := d\<rparr>
    in messageHidden s \<and> (gx \<noteq> drone_lastX d \<or> gz \<noteq> drone_lastZ d) \<longrightarrow>
         (readCell (grid s) gz gx = Inr (Some EMPTY) \<longrightarrow>
            animate N s =
              entitiesInTurn N [] (enemies s)
                (recordCell gx gz
                   (emit PlayTrailStep (s1\<lparr>grid := setCell (grid s) gz gx TRAIL,
                                           trailCount := trailCount s + 1\<rparr>)))) \<and>
         (readCell (grid s) gz gx = Inr (Some TRAIL) \<longrightarrow>
            animate N s = entitiesInTurn N [] (enemies s) (recordCell gx gz (die N s1))) \<and>
         (readCell (grid s) gz gx = Inr (Some OCCUPIED) \<and> 0 < trailCount s \<longrightarrow>
            animate N s = entitiesInTurn N [] (enemies s) (recordCell gx gz (handleCapture N s1)))"
    unfolding t tickInOrder_def Let_def
    by (auto simp: cellTransition_def recordCell_def Let_def)
  show "wf_grid N (grid s) \<and> captureTick N s \<longrightarrow>
      {p. gridAt (grid s) (snd p) (fst p) = Some EMPTY \<and>
          gridAt (grid (fst (animate N s))) (snd p) (fst p) = Some OCCUPIED}
        = fillable N (grid s) (enemies s) \<and>
      (snd (animate N s) = None \<longrightarrow>
         enemies (fst (animate N s))
           = map (\<lambda>e. fst (Enemy_update N (grid (fst (animate N s))) e)) (enemies s))"
  proof (intro conjI impI)
    assume a: "wf_grid N (grid s) \<and> captureTick N s"
    then have wf: "wf_grid N (grid s)" and ctk: "captureTick N s" by simp_all
    have cells: "\<And>x y. gridAt (grid (fst (animate N s))) y x =
              (if (x, y) \<in> set (concat (getFillableAreas N (grid s) (enemies s))) \<or>
                  gridAt (grid s) y x = Some TRAIL
               then Some OCCUPIED else gridAt (grid s) y x)"
      unfolding captureTick_animate(1)[OF wf ctk] by (rule gridAt_handleCapture[OF wf])
    show "{p. gridAt (grid s) (snd p) (fst p) = Some EMPTY \<and>
               gridAt (grid (fst (animate N s))) (snd p) (fst p) = Some OCCUPIED}
             = fillable N (grid s) (enemies s)"
      unfolding cells getFillableAreas_union
      by (auto simp: fillable_def emptyCells_def)
  next
    assume a: "wf_grid N (grid s) \<and> captureTick N s"
    then have wf: "wf_grid N (grid s)" and ctk: "captureTick N s" by simp_all
    let ?s1 = "s\<lparr>drone := Drone_update N (drone s)\<rparr>"
    let ?s2 = "fst (cellTransition N ?s1)"
    have hid: "messageHidden s" using ctk by (simp add: captureTick_def Let_def)
    note ct = captureTick_cellTransition[OF wf ctk]
    have g2: "grid ?s2 = grid (handleCapture N s)" "enemies ?s2 = enemies s"
      unfolding ct by simp_all
    have nt: "noTrail (grid ?s2)"
      unfolding g2(1) by (rule noTrail_handleCapture[OF wf])
    have an: "animate N s = forEachEnemy N [0..<length (enemies ?s2)] ?s2"
      using hid by (simp add: animate_def Let_def ct)
    assume "snd (animate N s) = None"
    then have "forEachEnemy N [0..<length (enemies ?s2)] ?s2 = (fst (animate N s), None)"
      unfolding an by (metis prod.collapse)
    from forEachEnemy_moves[OF nt this]
    show "enemies (fst (animate N s))
              = map (\<lambda>e. fst (Enemy_update N (grid (fst (animate N s))) e)) (enemies s)"
      unfolding captureTick_animate(1)[OF wf ctk] g2 by simp
  qed
qed

lemma enemyCollide_no_throw:
  assumes "wf_grid N (grid s)" "0 \<le> \<lfloor>enemy_z e\<rfloor>" "\<lfloor>enemy_z e\<rfloor> < int N"
  shows "snd (enemyCollide N e s) = None"
proof -
  have r: "\<And>g x. wf_grid N g \<Longrightarrow> readCell g \<lfloor>enemy_z e\<rfloor> x = Inr (gridAt g \<lfloor>enemy_z e\<rfloor> x)"
    using assms(2,3) by (simp only: readCell_wf if_True simp_thms)
  show ?thesis
    by (simp add: enemyCollide_def Let_def r assms(1) wf_clearTrail)
qed

lemma capture_closing: "grid (handleCapture 6 closingGame) = capturedGrid6"
proof -
  have "trailToOccupied 6 (fillAreas [] trailGrid6) = capturedGrid6"
    by code_simp
  then show ?thesis
    by (simp add: closingGame_fields fillable_trailGrid6_ball)
qed

lemma lowerBall_bounces: "Enemy_update 6 capturedGrid6 lowerBall = (bouncedBall, None)"
  by (simp add: Enemy_update_def lowerBall_def bouncedBall_def outOr_def cellIs_def readCell_def
        elemAt_def capturedGrid6_def Let_def)

lemma animate_closing_no_throw: "snd (animate 6 closingGame) = None"
proof -
  let ?s1 = "closingGame\<lparr>drone := Drone_update 6 (drone closingGame)\<rparr>"
  let ?s2 = "fst (cellTransition 6 ?s1)"
  have hid: "messageHidden closingGame" by (simp add: closingGame_def)
  note ct = captureTick_cellTransition[OF wf_closing captureTick_closing]
  have g2: "grid ?s2 = capturedGrid6" "enemies ?s2 = [lowerBall]"
    unfolding ct using capture_closing by (simp_all add: closingGame_fields)
  have an: "animate 6 closingGame = forEachEnemy 6 [0..<length (enemies ?s2)] ?s2"
    using hid by (simp add: animate_def Let_def ct)
  let ?s3 = "?s2\<lparr>enemies := [bouncedBall]\<rparr>"
  have wf3: "wf_grid 6 (grid ?s3)"
    by (simp add: g2 wf_grid_def capturedGrid6_def)
  have "snd (enemyCollide 6 bouncedBall ?s3) = None"
    by (rule enemyCollide_no_throw[OF wf3]) (simp_all add: bouncedBall_def lowerBall_def)
  moreover have "enemyBody 6 0 ?s2 = enemyCollide 6 bouncedBall ?s3"
    by (simp add: enemyBody_def g2 lowerBall_bounces)
  ultimately have "snd (enemyBody 6 0 ?s2) = None" by simp
  then have "snd (forEachEnemy 6 [0] ?s2) = None"
    by (cases "enemyBody 6 0 ?s2") simp
  then show ?thesis unfolding an g2 by simp
qed

theorem tick_order_witness:
  "fillable 6 trailGrid6 [lowerBall] =
     {p. gridAt trailGrid6 (snd p) (fst p) = Some EMPTY \<and>
         gridAt capturedGrid6 (snd p) (fst p) = Some OCCUPIED} \<and>
   enemies (fst (animate 6 closingGame)) = [bouncedBall] \<and>
   animate 6 layingGame =
     entitiesInTurn 6 [] [lowerBall]
       (recordCell 3 3
          (emit PlayTrailStep
             (layingGame\<lparr>drone := (drone layingGame)\<lparr>drone_z := 3.05\<rparr>,
                         grid := setCell trailGrid6 3 3 TRAIL, trailCount := 3\<rparr>))) \<and>
   animate 6 crossingGame =
     entitiesInTurn 6 [] [lowerBall]
       (recordCell 2 2 (die 6 (crossingGame\<lparr>drone := (drone crossingGame)\<lparr>drone_x := 2.8\<rparr>\<rparr>))) \<and>
   animate 6 closingGame =
     entitiesInTurn 6 [] [lowerBall]
       (recordCell 4 2 (handleCapture 6 (closingGame\<lparr>drone := closingDrone\<lparr>drone_x := 4.05\<rparr>\<rparr>))) \<and>
   enemies (fst (cellTransition 6 layingGame)) = [lowerBall]"
proof -
  have g: "grid (fst (animate 6 closingGame)) = capturedGrid6"
    using captureTick_animate(1)[OF wf_closing captureTick_closing] capture_closing by simp
  have 1: "fillable 6 trailGrid6 [lowerBall] =
     {p. gridAt trailGrid6 (snd p) (fst p) = Some EMPTY \<and>
         gridAt capturedGrid6 (snd p) (fst p) = Some OCCUPIED} \<and>
   enemies (fst (animate 6 closingGame)) = [bouncedBall]"
  proof -
    from tick_order[of 6 closingGame] wf_closing captureTick_closing
    have "{p. gridAt (grid closingGame) (snd p) (fst p) = Some EMPTY \<and>
              gridAt (grid (fst (animate 6 closingGame))) (snd p) (fst p) = Some OCCUPIED}
            = fillable 6 (grid closingGame) (enemies closingGame) \<and>
          (snd (animate 6 closingGame) = None \<longrightarrow>
             enemies (fst (animate 6 closingGame))
               = map (\<lambda>e. fst (Enemy_update 6 (grid (fst (animate 6 closingGame))) e))
                   (enemies closingGame))"
      by blast
    then show ?thesis
      using animate_closing_no_throw
      unfolding g closingGame_fields by (simp add: lowerBall_bounces)
  qed
  have 2: "enemies (fst (cellTransition 6 layingGame)) = [lowerBall]"
    using tick_order[of 6 layingGame]
    by (simp add: layingGame_def closingGame_def)
  have cells: "readCell trailGrid6 3 3 = Inr (Some EMPTY)" "readCell trailGrid6 2 2 = Inr (Some TRAIL)"
    "readCell trailGrid6 2 4 = Inr (Some OCCUPIED)"
    by (simp_all add: readCell_def elemAt_def trailGrid6_def)
  have fg: "grid layingGame = trailGrid6" "enemies layingGame = [lowerBall]"
    "trailCount layingGame = 2" "messageHidden layingGame"
    by (simp_all add: layingGame_def closingGame_def)
  have dl: "Drone_update 6 (drone layingGame) = (drone layingGame)\<lparr>drone_z := 3.05\<rparr>"
    by (simp add: layingGame_def closingGame_def closingDrone_def Drone_update_def Let_def)
  have pl: "\<lfloor>drone_x ((drone layingGame)\<lparr>drone_z := 3.05\<rparr>)\<rfloor> = 3"
    "\<lfloor>drone_z ((drone layingGame)\<lparr>drone_z := 3.05\<rparr>)\<rfloor> = 3"
    "drone_lastZ ((drone layingGame)\<lparr>drone_z := 3.05\<rparr>) = 2"
    by (simp_all add: layingGame_def closingGame_def closingDrone_def)
  have 3: "animate 6 layingGame =
     entitiesInTurn 6 [] [lowerBall]
       (recordCell 3 3
          (emit PlayTrailStep
             (layingGame\<lparr>drone := (drone layingGame)\<lparr>drone_z := 3.05\<rparr>,
                         grid := setCell trailGrid6 3 3 TRAIL, trailCount := 3\<rparr>)))"
    using tick_order[of 6 layingGame, THEN conjunct2, THEN conjunct2, THEN conjunct1,
                      unfolded Let_def dl pl fg cells]
    by (simp add: fg(4) del: entitiesInTurn.simps)
  have fc: "grid crossingGame = trailGrid6" "enemies crossingGame = [lowerBall]"
    "messageHidden crossingGame"
    by (simp_all add: crossingGame_def closingGame_def)
  have dc: "Drone_update 6 (drone crossingGame) = (drone crossingGame)\<lparr>drone_x := 2.8\<rparr>"
    by (simp add: crossingGame_def closingGame_def closingDrone_def Drone_update_def Let_def)
  have pc: "\<lfloor>drone_x ((drone crossingGame)\<lparr>drone_x := 2.8\<rparr>)\<rfloor> = 2"
    "\<lfloor>drone_z ((drone crossingGame)\<lparr>drone_x := 2.8\<rparr>)\<rfloor> = 2"
    "drone_lastX ((drone crossingGame)\<lparr>drone_x := 2.8\<rparr>) = 3"
    by (simp_all add: crossingGame_def closingGame_def closingDrone_def)
  have 4: "animate 6 crossingGame =
     entitiesInTurn 6 [] [lowerBall]
       (recordCell 2 2 (die 6 (crossingGame\<lparr>drone := (drone crossingGame)\<lparr>drone_x := 2.8\<rparr>\<rparr>)))"
    using tick_order[of 6 crossingGame, THEN conjunct2, THEN conjunct2, THEN conjunct1,
                      unfolded Let_def dc pc fc cells]
    by (simp add: fc(3) del: entitiesInTurn.simps)
  have fk: "grid closingGame = trailGrid6" "enemies closingGame = [lowerBall]"
    "messageHidden closingGame" "trailCount closingGame = 2" "drone closingGame = closingDrone"
    by (simp_all add: closingGame_def)
  have dk: "Drone_update 6 closingDrone = closingDrone\<lparr>drone_x := 4.05\<rparr>"
    by (simp add: closingDrone_def Drone_update_def Let_def)
  have pk: "\<lfloor>drone_x (closingDrone\<lparr>drone_x := 4.05\<rparr>)\<rfloor> = 4"
    "\<lfloor>drone_z (closingDrone\<lparr>drone_x := 4.05\<rparr>)\<rfloor> = 2"
    "drone_lastX (closingDrone\<lparr>drone_x := 4.05\<rparr>) = 3"
    by (simp_all add: closingDrone_def)
  have 5: "animate 6 closingGame =
     entitiesInTurn 6 [] [lowerBall]
       (recordCell 4 2 (handleCapture 6 (closingGame\<lparr>drone := closingDrone\<lparr>drone_x := 4.05\<rparr>\<rparr>)))"
    using tick_order[of 6 closingGame, THEN conjunct2, THEN conjunct2, THEN conjunct1,
                      unfolded Let_def fk dk pk cells]
    by (simp add: fk(3) del: entitiesInTurn.simps)
  from 1 2 3 4 5 show ?thesis by blast
qed

section \<open>Proofs: the death event\<close>

lemma deathEffect_die: "wf_grid N (grid s) \<Longrightarrow> deathEffect s (die N s)"
  by (simp add: deathEffect_def gridAt_clearTrail drone_die Drone_reset_def)

lemma enemyCollide_death:
  assumes wf: "wf_grid N (grid s)"
    and trig: "sqrt ((enemy_x e - drone_x (drone s))\<^sup>2 + (enemy_z e - drone_z (drone s))\<^sup>2) < 0.8 \<or>
               gridAt (grid s) \<lfloor>enemy_z e\<rfloor> \<lfloor>enemy_x e\<rfloor> = Some TRAIL"
  shows "fst (enemyCollide N e s) = die N s"
proof (cases "sqrt ((enemy_x e - drone_x (drone s))\<^sup>2 + (enemy_z e - drone_z (drone s))\<^sup>2) < 0.8")
  case True
  have "readCell (grid (die N s)) \<lfloor>enemy_z e\<rfloor> \<lfloor>enemy_x e\<rfloor> \<noteq> Inr (Some TRAIL)"
    by (rule readCell_noTrail[OF noTrail_die[OF wf]])
  then show ?thesis
    using True by (auto simp: enemyCollide_def Let_def split: sum.splits)
next
  case False
  with trig have t: "gridAt (grid s) \<lfloor>enemy_z e\<rfloor> \<lfloor>enemy_x e\<rfloor> = Some TRAIL" by simp
  from gridAt_Some_inBounds[OF wf t]
  have "readCell (grid s) \<lfloor>enemy_z e\<rfloor> \<lfloor>enemy_x e\<rfloor> = Inr (Some TRAIL)"
    using t by (simp add: readCell_wf[OF wf] inBounds_def)
  then show ?thesis
    using False by (simp add: enemyCollide_def Let_def)
qed

text \<open>
  C4. On a well-formed grid, each of the three triggers is answered by exactly one
  death event. When the controlled unit has stepped onto a new cell that is
  \<^verbatim>\<open>TRAIL\<close>, the cell check of the frame, and when a hostile entity, after its move,
  is within the contact radius 0.8 of the unit or stands on a \<^verbatim>\<open>TRAIL\<close> cell (or
  both), the pass of the loop for that entity, leave a state with exactly one more
  \<^verbatim>\<open>playDeath\<close> signal, the lives decremented by exactly 1, every \<^verbatim>\<open>TRAIL\<close> cell
  turned \<^verbatim>\<open>EMPTY\<close> and every other cell unchanged, the trail length 0 and the unit
  at \<open>(1, 1)\<close>.
\<close>

theorem death_event:
  assumes wf: "wf_grid N (grid s)"
  shows
    "((\<lfloor>drone_x (drone s)\<rfloor> \<noteq> drone_lastX (drone s) \<or> \<lfloor>drone_z (drone s)\<rfloor> \<noteq> drone_lastZ (drone s)) \<and>
       gridAt (grid s) \<lfloor>drone_z (drone s)\<rfloor> \<lfloor>drone_x (drone s)\<rfloor> = Some TRAIL
       \<longrightarrow> deathEffect s (fst (cellTransition N s))) \<and>
     (snd (Enemy_update N (grid s) (enemies s ! i)) = None \<and>
      (sqrt ((enemy_x (fst (Enemy_update N (grid s) (enemies s ! i))) - drone_x (drone s))\<^sup>2 +
             (enemy_z (fst (Enemy_update N (grid s) (enemies s ! i))) - drone_z (drone s))\<^sup>2) < 0.8 \<or>
       gridAt (grid s) \<lfloor>enemy_z (fst (Enemy_update N (grid s) (enemies s ! i)))\<rfloor>
                       \<lfloor>enemy_x (fst (Enemy_update N (grid s) (enemies s ! i)))\<rfloor> = Some TRAIL)
       \<longrightarrow> deathEffect s (fst (enemyBody N i s)))"
proof (intro conjI impI)
  assume a: "(\<lfloor>drone_x (drone s)\<rfloor> \<noteq> drone_lastX (drone s) \<or> \<lfloor>drone_z (drone s)\<rfloor> \<noteq> drone_lastZ (drone s)) \<and>
       gridAt (grid s) \<lfloor>drone_z (drone s)\<rfloor> \<lfloor>drone_x (drone s)\<rfloor> = Some TRAIL"
  then have t: "gridAt (grid s) \<lfloor>drone_z (drone s)\<rfloor> \<lfloor>drone_x (drone s)\<rfloor> = Some TRAIL" by simp
  from gridAt_Some_inBounds[OF wf t]
  have "readCell (grid s) \<lfloor>drone_z (drone s)\<rfloor> \<lfloor>drone_x (drone s)\<rfloor> = Inr (Some TRAIL)"
    using t by (simp add: readCell_wf[OF wf] inBounds_def)
  then have "fst (cellTransition N s) =
      (die N s)\<lparr>drone := (drone (die N s))\<lparr>drone_lastX := \<lfloor>drone_x (drone s)\<rfloor>,
                                             drone_lastZ := \<lfloor>drone_z (drone s)\<rfloor>\<rparr>\<rparr>"
    using a by (auto simp: cellTransition_def Let_def)
  then show "deathEffect s (fst (cellTransition N s))"
    using deathEffect_die[OF wf] by (simp add: deathEffect_def)
next
  let ?e = "fst (Enemy_update N (grid s) (enemies s ! i))"
  let ?s1 = "s\<lparr>enemies := (enemies s)[i := ?e]\<rparr>"
  assume a: "snd (Enemy_update N (grid s) (enemies s ! i)) = None \<and>
      (sqrt ((enemy_x ?e - drone_x (drone s))\<^sup>2 + (enemy_z ?e - drone_z (drone s))\<^sup>2) < 0.8 \<or>
       gridAt (grid s) \<lfloor>enemy_z ?e\<rfloor> \<lfloor>enemy_x ?e\<rfloor> = Some TRAIL)"
  then have eb: "enemyBody N i s = enemyCollide N ?e ?s1"
    by (cases "Enemy_update N (grid s) (enemies s ! i)") (auto simp: enemyBody_def)
  have wf1: "wf_grid N (grid ?s1)" using wf by simp
  have "fst (enemyCollide N ?e ?s1) = die N ?s1"
    by (rule enemyCollide_death[OF wf1]) (use a in simp)
  then show "deathEffect s (fst (enemyBody N i s))"
    using deathEffect_die[OF wf1] by (simp add: eb deathEffect_def)
qed

theorem death_event_witness:
  "lives (fst (cellTransition 6 crossingGame)) = 2 \<and>
   gridAt (grid (fst (cellTransition 6 crossingGame))) 2 2 = Some EMPTY \<and>
   trailCount (fst (cellTransition 6 crossingGame)) = 0 \<and>
   lives (fst (enemyBody 6 0 closingGame)) = 2 \<and>
   count_list (signals (fst (enemyBody 6 0 closingGame))) PlayDeath = 1 \<and>
   gridAt (grid (fst (enemyBody 6 0 closingGame))) 2 2 = Some EMPTY"
proof -
  have wfc: "wf_grid 6 (grid crossingGame)"
    by (simp add: crossingGame_def closingGame_def wf_trailGrid6)
  have mb: "\<lfloor>enemy_z movedBall\<rfloor> = 2" "\<lfloor>enemy_x movedBall\<rfloor> = 2"
    by (simp_all add: movedBall_def lowerBall_def)
  have "deathEffect crossingGame (fst (cellTransition 6 crossingGame))"
    using death_event[OF wfc, of 0]
    by (simp add: crossingGame_def closingGame_def closingDrone_def trailGrid6_cells)
  moreover have "deathEffect closingGame (fst (enemyBody 6 0 closingGame))"
    using death_event[OF wf_closing, of 0]
    by (simp add: closingGame_fields lowerBall_moves mb trailGrid6_cells)
  ultimately show ?thesis
    by (simp add: deathEffect_def crossingGame_def closingGame_def trailGrid6_cells)
qed

section \<open>Proofs: the border\<close>

lemma keepsOccupied_refl: "wf_grid N g \<Longrightarrow> keepsOccupied N g g"
  by (simp add: keepsOccupied_def)

lemma keepsOccupied_trans:
  "keepsOccupied N g g' \<Longrightarrow> keepsOccupied N g' g'' \<Longrightarrow> keepsOccupied N g g''"
  by (simp add: keepsOccupied_def)

lemma keeps_layTrail:
  "wf_grid N g \<Longrightarrow> gridAt g y x = Some EMPTY \<Longrightarrow> keepsOccupied N g (setCell g y x TRAIL)"
  by (auto simp: keepsOccupied_def wf_setCell gridAt_setCell)

lemma keeps_handleCapture:
  "wf_grid N (grid s) \<Longrightarrow> keepsOccupied N (grid s) (grid (handleCapture N s))"
  unfolding keepsOccupied_def
  by (auto simp del: handleCapture_fields simp add: wf_handleCapture gridAt_handleCapture)

lemma keeps_die: "wf_grid N (grid s) \<Longrightarrow> keepsOccupied N (grid s) (grid (die N s))"
  unfolding keepsOccupied_def
  by (simp add: wf_clearTrail gridAt_clearTrail)

lemma keeps_cellTransition:
  assumes wf: "wf_grid N (grid s)"
  shows "keepsOccupied N (grid s) (grid (fst (cellTransition N s)))"
proof -
  let ?gx = "\<lfloor>drone_x (drone s)\<rfloor>" and ?gz = "\<lfloor>drone_z (drone s)\<rfloor>"
  show ?thesis
  proof (cases "readCell (grid s) ?gz ?gx")
    case (Inl err)
    then show ?thesis
      using wf by (simp add: cellTransition_def Let_def keepsOccupied_refl)
  next
    case (Inr c)
    then have c: "c = gridAt (grid s) ?gz ?gx"
      using readCell_wf[OF wf, of ?gz ?gx] by (simp split: if_splits)
    show ?thesis
      using wf Inr c keeps_layTrail[OF wf, of ?gz ?gx] keeps_handleCapture[OF wf] keeps_die[OF wf]
      by (auto simp: cellTransition_def Let_def keepsOccupied_refl)
  qed
qed

lemma keeps_enemyCollide:
  assumes wf: "wf_grid N (grid s)"
  shows "keepsOccupied N (grid s) (grid (fst (enemyCollide N e s)))"
proof -
  have 1: "keepsOccupied N (grid s) (grid (die N (die N s)))"
    using keepsOccupied_trans[OF keeps_die[OF wf] keeps_die[OF wf_die[OF wf]]] .
  show ?thesis
    using keeps_die[OF wf] 1 keepsOccupied_refl[OF wf]
    by (auto simp: enemyCollide_def Let_def split: sum.splits)
qed

lemma keeps_enemyBody:
  assumes wf: "wf_grid N (grid s)"
  shows "keepsOccupied N (grid s) (grid (fst (enemyBody N i s)))"
proof (cases "Enemy_update N (grid s) (enemies s ! i)")
  case (Pair e r)
  show ?thesis
  proof (cases r)
    case None
    have "wf_grid N (grid (s\<lparr>enemies := (enemies s)[i := e]\<rparr>))" using wf by simp
    from keeps_enemyCollide[OF this, of e] show ?thesis
      by (simp add: enemyBody_def Pair None)
  next
    case (Some err)
    then show ?thesis using wf by (simp add: enemyBody_def Pair keepsOccupied_refl)
  qed
qed

lemma keeps_forEachEnemy:
  "wf_grid N (grid s) \<Longrightarrow> keepsOccupied N (grid s) (grid (fst (forEachEnemy N is s)))"
proof (induction "is" arbitrary: s)
  case Nil
  then show ?case by (simp add: keepsOccupied_refl)
next
  case (Cons i rest)
  obtain s1 r where eb: "enemyBody N i s = (s1, r)" by (cases "enemyBody N i s")
  with keeps_enemyBody[OF Cons.prems, of i] have k1: "keepsOccupied N (grid s) (grid s1)" by simp
  show ?case
  proof (cases r)
    case None
    from k1 have "wf_grid N (grid s1)" by (simp add: keepsOccupied_def)
    from keepsOccupied_trans[OF k1 Cons.IH[OF this]] show ?thesis by (simp add: eb None)
  next
    case (Some err)
    with k1 show ?thesis by (simp add: eb)
  qed
qed

lemma keeps_animate:
  assumes wf: "wf_grid N (grid s)"
  shows "keepsOccupied N (grid s) (grid (fst (animate N s)))"
proof (cases "messageHidden s")
  case False
  then show ?thesis using wf by (simp add: animate_def keepsOccupied_refl)
next
  case True
  let ?s1 = "s\<lparr>drone := Drone_update N (drone s)\<rparr>"
  have wf1: "wf_grid N (grid ?s1)" using wf by simp
  obtain s2 r where ct: "cellTransition N ?s1 = (s2, r)" by (cases "cellTransition N ?s1")
  with keeps_cellTransition[OF wf1] have k2: "keepsOccupied N (grid s) (grid s2)" by simp
  show ?thesis
  proof (cases r)
    case None
    from k2 have "wf_grid N (grid s2)" by (simp add: keepsOccupied_def)
    from keepsOccupied_trans[OF k2 keeps_forEachEnemy[OF this]] show ?thesis
      using True by (simp add: animate_def Let_def ct None)
  next
    case (Some err)
    with k2 show ?thesis using True by (simp add: animate_def Let_def ct)
  qed
qed

lemma grid_keydown [simp]: "grid (keydown k s) = grid s"
  by (simp add: keydown_def Let_def)

lemma keeps_step: "wf_grid N (grid s) \<Longrightarrow> keepsOccupied N (grid s) (grid (step N ev s))"
  by (cases ev) (simp_all add: step_def keeps_animate keepsOccupied_refl)

lemma keeps_run: "wf_grid N (grid s) \<Longrightarrow> keepsOccupied N (grid s) (grid (run N evs s))"
  unfolding run_def
proof (induction evs arbitrary: s)
  case Nil
  then show ?case by (simp add: keepsOccupied_refl)
next
  case (Cons ev evs)
  have k1: "keepsOccupied N (grid s) (grid (step N ev s))" by (rule keeps_step[OF Cons.prems])
  then have "wf_grid N (grid (step N ev s))" by (simp add: keepsOccupied_def)
  from keepsOccupied_trans[OF k1 Cons.IH[OF this]] show ?case by simp
qed

lemma grid_startLevel [simp]: "grid (startLevel N lvl rnd s) = initGrid N"
  by (simp add: startLevel_def Let_def)

text \<open>
  C10. Every cell of the two-cell-thick frame of the grid is \<^verbatim>\<open>OCCUPIED\<close> in every
  state that a run reaches: in the state that \<^verbatim>\<open>startLevel\<close> leaves and after every
  sequence of key presses and frames that follows it (a frame that ends in a throw
  included). The reason is a property of every single key press and frame on a
  well-formed grid: a cell that is \<^verbatim>\<open>OCCUPIED\<close> before it is \<^verbatim>\<open>OCCUPIED\<close> after it,
  and the grid stays well formed.
\<close>

theorem border_stays_occupied:
  "(inBounds N p \<and> border N p \<longrightarrow>
      gridAt (grid (run N evs (startLevel N lvl rnd s0))) (snd p) (fst p) = Some OCCUPIED) \<and>
   (wf_grid N (grid s) \<and> gridAt (grid s) y x = Some OCCUPIED \<longrightarrow>
      wf_grid N (grid (step N ev s)) \<and> gridAt (grid (step N ev s)) y x = Some OCCUPIED)"
proof (intro conjI impI)
  assume p: "inBounds N p \<and> border N p"
  have "gridAt (grid (startLevel N lvl rnd s0)) (snd p) (fst p) = Some OCCUPIED"
    using p by (simp add: gridAt_initGrid)
  moreover have "keepsOccupied N (grid (startLevel N lvl rnd s0))
                   (grid (run N evs (startLevel N lvl rnd s0)))"
    by (rule keeps_run) (simp add: wf_initGrid)
  ultimately show "gridAt (grid (run N evs (startLevel N lvl rnd s0))) (snd p) (fst p)
                     = Some OCCUPIED"
    by (simp add: keepsOccupied_def)
next
  assume a: "wf_grid N (grid s) \<and> gridAt (grid s) y x = Some OCCUPIED"
  then have "keepsOccupied N (grid s) (grid (step N ev s))" by (simp add: keeps_step)
  with a show "wf_grid N (grid (step N ev s))" "gridAt (grid (step N ev s)) y x = Some OCCUPIED"
    by (simp_all add: keepsOccupied_def)
qed

theorem border_stays_occupied_witness:
  "gridAt (grid (run 6 [KeyDown ArrowRight, Frame, Frame] (startLevel 6 1 (\<lambda>n. 0) closingGame))) 1 4
     = Some OCCUPIED \<and>
   gridAt (grid (step 6 Frame closingGame)) 2 4 = Some OCCUPIED"
proof -
  have c: "gridAt trailGrid6 2 4 = Some OCCUPIED"
    by (simp add: gridAt_def elemAt_def trailGrid6_def)
  show ?thesis
    using border_stays_occupied
            [of 6 "(4, 1)" "[KeyDown ArrowRight, Frame, Frame]" 1 "\<lambda>n. 0" closingGame
                closingGame 2 4 Frame]
    by (simp add: inBounds_def border_def closingGame_fields wf_trailGrid6 c)
qed

section \<open>Proofs: the capture event without a trail\<close>

lemma gridAt_Some_iff:
  "gridAt g y x = Some c \<longleftrightarrow>
     (0 \<le> y \<and> nat y < length g \<and> 0 \<le> x \<and> nat x < length (g ! nat y) \<and> g ! nat y ! nat x = c)"
  by (auto simp: gridAt_def elemAt_def)

lemma noTrail_rows: "noTrail g \<longleftrightarrow> (\<forall>row\<in>set g. TRAIL \<notin> set row)"
proof
  assume nt: "noTrail g"
  show "\<forall>row\<in>set g. TRAIL \<notin> set row"
  proof (intro ballI notI)
    fix row assume "row \<in> set g" "TRAIL \<in> set row"
    then obtain i j where "i < length g" "g ! i = row" "j < length row" "row ! j = TRAIL"
      by (metis in_set_conv_nth)
    then have "gridAt g (int i) (int j) = Some TRAIL"
      by (simp add: gridAt_Some_iff)
    then show False using nt by (simp add: noTrail_def)
  qed
next
  assume r: "\<forall>row\<in>set g. TRAIL \<notin> set row"
  show "noTrail g"
    unfolding noTrail_def
  proof (intro allI notI)
    fix x y assume "gridAt g y x = Some TRAIL"
    then have "nat y < length g" "nat x < length (g ! nat y)" "g ! nat y ! nat x = TRAIL"
      by (simp_all add: gridAt_Some_iff)
    then have "g ! nat y \<in> set g" "TRAIL \<in> set (g ! nat y)"
      by (auto simp: in_set_conv_nth)
    then show False using r by blast
  qed
qed

lemma fillAreas_empty: "set (concat areas) = {} \<Longrightarrow> fillAreas areas g = g"
  unfolding fillAreas_def
  by (induction areas) auto

lemma threatened_link:
  assumes "threatened N g es r" "(r, r') \<in> link (emptyCells N g)"
  shows "threatened N g es r'"
proof -
  from assms(1) obtain q where q: "q \<in> emptyCells N g" "enemyAt es q"
    "(r, q) \<in> (link (emptyCells N g))\<^sup>*"
    by (auto simp: threatened_def)
  have "(r', r) \<in> link (emptyCells N g)"
    using assms(2) sym_link[of "emptyCells N g"] by (auto dest: symD)
  then have "(r', q) \<in> (link (emptyCells N g))\<^sup>*"
    using q(3) by (rule converse_rtrancl_into_rtrancl)
  then show ?thesis using q(1,2) unfolding threatened_def by blast
qed

lemma emptyCells_handleCapture:
  assumes "wf_grid N (grid s)"
  shows "emptyCells N (grid (handleCapture N s))
           = {p \<in> emptyCells N (grid s). threatened N (grid s) (enemies s) p}"
proof -
  have "\<And>p. gridAt (grid (handleCapture N s)) (snd p) (fst p) = Some EMPTY \<longleftrightarrow>
      gridAt (grid s) (snd p) (fst p) = Some EMPTY \<and>
      p \<notin> set (concat (getFillableAreas N (grid s) (enemies s)))"
    unfolding gridAt_handleCapture[OF assms] by auto
  then show ?thesis
    unfolding getFillableAreas_union
    by (auto simp: emptyCells_def fillable_def)
qed

lemma threatened_handleCapture:
  assumes wf: "wf_grid N (grid s)"
    and p: "p \<in> emptyCells N (grid (handleCapture N s))"
  shows "threatened N (grid (handleCapture N s)) (enemies (handleCapture N s)) p"
proof -
  let ?E = "emptyCells N (grid s)"
  let ?T = "{p \<in> ?E. threatened N (grid s) (enemies s) p}"
  have E': "emptyCells N (grid (handleCapture N s)) = ?T"
    by (rule emptyCells_handleCapture[OF wf])
  from p have pT: "p \<in> ?T" unfolding E' .
  then obtain q where q: "q \<in> ?E" "enemyAt (enemies s) q" "(p, q) \<in> (link ?E)\<^sup>*"
    by (auto simp: threatened_def)
  have "(p, q) \<in> (link ?T)\<^sup>* \<and> q \<in> ?T"
    using q(3)
  proof (induction rule: rtrancl_induct)
    case base
    then show ?case using pT by simp
  next
    case (step r r')
    then have rT: "r \<in> ?T" by simp
    have "threatened N (grid s) (enemies s) r'"
      using threatened_link[OF _ step.hyps(2)] rT by simp
    moreover have "r' \<in> ?E" using step.hyps(2) by (simp add: link_def)
    ultimately have r'T: "r' \<in> ?T" by simp
    have "(r, r') \<in> link ?T"
      using step.hyps(2) rT r'T by (simp add: link_def)
    with step.IH r'T show ?case by (meson rtrancl_into_rtrancl)
  qed
  then have "q \<in> emptyCells N (grid (handleCapture N s))"
    and "(p, q) \<in> (link (emptyCells N (grid (handleCapture N s))))\<^sup>*"
    unfolding E' by simp_all
  moreover have "enemyAt (enemies (handleCapture N s)) q" using q(2) by simp
  ultimately show ?thesis
    unfolding threatened_def by blast
qed

lemma handleCapture_twice:
  assumes wf: "wf_grid N (grid s)"
  shows "grid (handleCapture N (handleCapture N s)) = grid (handleCapture N s)"
proof -
  let ?t = "handleCapture N s"
  have "fillable N (grid ?t) (enemies ?t) = {}"
    using threatened_handleCapture[OF wf] by (auto simp: fillable_def)
  then have "set (concat (getFillableAreas N (grid ?t) (enemies ?t))) = {}"
    by (simp only: getFillableAreas_union)
  then have "fillAreas (getFillableAreas N (grid ?t) (enemies ?t)) (grid ?t) = grid ?t"
    by (rule fillAreas_empty)
  moreover have "noTrail (grid ?t)" by (rule noTrail_handleCapture[OF wf])
  ultimately show ?thesis
    using handleCapture_fields(1)[of N ?t] by (simp only: trailToOccupied_noTrail)
qed

text \<open>
  C3, amended. The engine does not run the capture event with a trail length of 0: in
  every state with \<^verbatim>\<open>trailCount = 0\<close> in which the unit stands on an
  \<^verbatim>\<open>OCCUPIED\<close> cell, the cell check of the frame only records the cell; the grid,
  the captured percentage and the signals stay as they are. So every frame that starts
  with \<^verbatim>\<open>trailCount = 0\<close> and moves the unit onto an \<^verbatim>\<open>OCCUPIED\<close> cell is the
  loop over the hostile entities on the state with the moved unit, and nothing else.
  The capture event itself is
  without effect on the grid in every engine state in which the trail-length counter
  is 0, no cell of the grid is \<^verbatim>\<open>TRAIL\<close> and every \<^verbatim>\<open>EMPTY\<close> cell is
  4-connected to an \<^verbatim>\<open>EMPTY\<close> cell that holds the floored position of a hostile
  entity: it leaves the grid and the trail-length counter unchanged, and the captured
  percentage it computes is the one of the unchanged grid, so that a captured percentage
  that was up to date is unchanged. Every capture event on a well-formed grid leaves
  such a state, so that a second capture event right after it changes no cell. And on
  every well-formed grid, whatever the trail length, the capture event turns every
  \<^verbatim>\<open>EMPTY\<close> cell that is not 4-connected to an \<^verbatim>\<open>EMPTY\<close> cell holding a hostile
  entity into \<^verbatim>\<open>OCCUPIED\<close>.
\<close>

theorem capture_idempotence:
  "(trailCount s = 0 \<and>
    readCell (grid s) \<lfloor>drone_z (drone s)\<rfloor> \<lfloor>drone_x (drone s)\<rfloor> = Inr (Some OCCUPIED) \<longrightarrow>
      cellTransition N s =
        (s\<lparr>drone := (drone s)\<lparr>drone_lastX := \<lfloor>drone_x (drone s)\<rfloor>,
                               drone_lastZ := \<lfloor>drone_z (drone s)\<rfloor>\<rparr>\<rparr>, None) \<and>
      grid (fst (cellTransition N s)) = grid s \<and>
      capturedPercent (fst (cellTransition N s)) = capturedPercent s \<and>
      signals (fst (cellTransition N s)) = signals s) \<and>
   (messageHidden s \<and> trailCount s = 0 \<and>
    readCell (grid s) \<lfloor>drone_z (Drone_update N (drone s))\<rfloor>
                      \<lfloor>drone_x (Drone_update N (drone s))\<rfloor> = Inr (Some OCCUPIED) \<longrightarrow>
      animate N s =
        forEachEnemy N [0..<length (enemies s)]
          (s\<lparr>drone := (Drone_update N (drone s))
                 \<lparr>drone_lastX := \<lfloor>drone_x (Drone_update N (drone s))\<rfloor>,
                  drone_lastZ := \<lfloor>drone_z (Drone_update N (drone s))\<rfloor>\<rparr>\<rparr>)) \<and>
   (trailCount s = 0 \<and> noTrail (grid s) \<and>
    (\<forall>p\<in>emptyCells N (grid s). threatened N (grid s) (enemies s) p) \<longrightarrow>
      grid (handleCapture N s) = grid s \<and>
      trailCount (handleCapture N s) = trailCount s \<and>
      capturedPercent (handleCapture N s) = percentOf N (countOccupied N (grid s)) \<and>
      (capturedPercent s = percentOf N (countOccupied N (grid s)) \<longrightarrow>
         capturedPercent (handleCapture N s) = capturedPercent s)) \<and>
   (wf_grid N (grid s) \<longrightarrow>
      trailCount (handleCapture N s) = 0 \<and> noTrail (grid (handleCapture N s)) \<and>
      (\<forall>p\<in>emptyCells N (grid (handleCapture N s)).
         threatened N (grid (handleCapture N s)) (enemies (handleCapture N s)) p) \<and>
      grid (handleCapture N (handleCapture N s)) = grid (handleCapture N s)) \<and>
   (wf_grid N (grid s) \<and> p \<in> fillable N (grid s) (enemies s) \<longrightarrow>
      gridAt (grid s) (snd p) (fst p) = Some EMPTY \<and>
      gridAt (grid (handleCapture N s)) (snd p) (fst p) = Some OCCUPIED)"
proof (intro conjI impI)
  assume a: "trailCount s = 0 \<and>
    readCell (grid s) \<lfloor>drone_z (drone s)\<rfloor> \<lfloor>drone_x (drone s)\<rfloor> = Inr (Some OCCUPIED)"
  then show ct: "cellTransition N s =
        (s\<lparr>drone := (drone s)\<lparr>drone_lastX := \<lfloor>drone_x (drone s)\<rfloor>,
                               drone_lastZ := \<lfloor>drone_z (drone s)\<rfloor>\<rparr>\<rparr>, None)"
    by (auto simp: cellTransition_def Let_def)
  show "grid (fst (cellTransition N s)) = grid s"
    "capturedPercent (fst (cellTransition N s)) = capturedPercent s"
    "signals (fst (cellTransition N s)) = signals s"
    unfolding ct by simp_all
next
  assume a: "messageHidden s \<and> trailCount s = 0 \<and>
    readCell (grid s) \<lfloor>drone_z (Drone_update N (drone s))\<rfloor>
                      \<lfloor>drone_x (Drone_update N (drone s))\<rfloor> = Inr (Some OCCUPIED)"
  let ?d = "Drone_update N (drone s)"
  have "cellTransition N (s\<lparr>drone := ?d\<rparr>) =
          (s\<lparr>drone := ?d\<lparr>drone_lastX := \<lfloor>drone_x ?d\<rfloor>, drone_lastZ := \<lfloor>drone_z ?d\<rfloor>\<rparr>\<rparr>, None)"
    using a by (auto simp: cellTransition_def Let_def)
  then show "animate N s =
        forEachEnemy N [0..<length (enemies s)]
          (s\<lparr>drone := ?d\<lparr>drone_lastX := \<lfloor>drone_x ?d\<rfloor>, drone_lastZ := \<lfloor>drone_z ?d\<rfloor>\<rparr>\<rparr>)"
    using a by (simp add: animate_def)
next
  assume a: "trailCount s = 0 \<and> noTrail (grid s) \<and>
    (\<forall>p\<in>emptyCells N (grid s). threatened N (grid s) (enemies s) p)"
  then have "fillable N (grid s) (enemies s) = {}"
    by (auto simp: fillable_def)
  then have "set (concat (getFillableAreas N (grid s) (enemies s))) = {}"
    by (simp only: getFillableAreas_union)
  then have "fillAreas (getFillableAreas N (grid s) (enemies s)) (grid s) = grid s"
    by (rule fillAreas_empty)
  then show g: "grid (handleCapture N s) = grid s"
    using a by (simp add: trailToOccupied_noTrail)
  show "trailCount (handleCapture N s) = trailCount s" using a by simp
  show c: "capturedPercent (handleCapture N s) = percentOf N (countOccupied N (grid s))"
    using handleCapture_fields(6)[of N s] unfolding g .
  assume "capturedPercent s = percentOf N (countOccupied N (grid s))"
  with c show "capturedPercent (handleCapture N s) = capturedPercent s" by simp
next
  assume wf: "wf_grid N (grid s)"
  show "trailCount (handleCapture N s) = 0" by simp
  show "noTrail (grid (handleCapture N s))" by (rule noTrail_handleCapture[OF wf])
  show "\<forall>p\<in>emptyCells N (grid (handleCapture N s)).
         threatened N (grid (handleCapture N s)) (enemies (handleCapture N s)) p"
    using threatened_handleCapture[OF wf] by blast
  show "grid (handleCapture N (handleCapture N s)) = grid (handleCapture N s)"
    by (rule handleCapture_twice[OF wf])
next
  assume a: "wf_grid N (grid s) \<and> p \<in> fillable N (grid s) (enemies s)"
  then show e: "gridAt (grid s) (snd p) (fst p) = Some EMPTY"
    by (simp add: fillable_def emptyCells_def)
  have "(fst p, snd p) \<in> set (concat (getFillableAreas N (grid s) (enemies s)))"
    using a unfolding getFillableAreas_union by simp
  then show "gridAt (grid (handleCapture N s)) (snd p) (fst p) = Some OCCUPIED"
    using a gridAt_handleCapture[of N s "snd p" "fst p"] by (simp del: handleCapture_fields)
qed

lemma noTrail_capturedGrid6: "noTrail capturedGrid6"
  by (simp add: noTrail_rows capturedGrid6_def)

lemma fillable_capturedGrid6_corner:
  "getFillableAreas 6 capturedGrid6 [cornerBall] = [[(2, 3), (3, 3)]]"
  unfolding cornerBall_def by code_simp

lemma fillable_capturedGrid6_bounced: "getFillableAreas 6 capturedGrid6 [bouncedBall] = []"
  unfolding bouncedBall_def by code_simp

lemma wf_capturedGrid6: "wf_grid 6 capturedGrid6"
  by (simp add: wf_grid_def capturedGrid6_def)

text \<open>
  C3, as the specification states it, fails: the capture event fills every
  \<^verbatim>\<open>EMPTY\<close> region that holds no hostile entity, whether a trail was closed or
  not. In \<open>idleGame\<close> the trail-length counter is 0 and no cell is \<^verbatim>\<open>TRAIL\<close>, and
  the capture event turns the \<^verbatim>\<open>EMPTY\<close> cell \<open>(2, 3)\<close> into \<^verbatim>\<open>OCCUPIED\<close>.
  (\<^verbatim>\<open>animate\<close> itself calls \<^verbatim>\<open>handleCapture\<close> only when \<^verbatim>\<open>trailCount > 0\<close>.)
\<close>

theorem capture_idempotence_counterexample:
  "trailCount idleGame = 0 \<and> noTrail (grid idleGame) \<and>
   gridAt (grid idleGame) 3 2 = Some EMPTY \<and>
   gridAt (grid (handleCapture 6 idleGame)) 3 2 = Some OCCUPIED"
proof -
  have f: "grid idleGame = capturedGrid6" "enemies idleGame = [cornerBall]"
    "trailCount idleGame = 0"
    by (simp_all add: idleGame_def capturedGame_def)
  have wf: "wf_grid 6 (grid idleGame)" by (simp add: f wf_capturedGrid6)
  have c: "gridAt capturedGrid6 3 2 = Some EMPTY"
    by (simp add: gridAt_def elemAt_def capturedGrid6_def)
  show ?thesis
    using gridAt_handleCapture[OF wf, where y = 3 and x = 2]
    by (simp add: f noTrail_capturedGrid6 c fillable_capturedGrid6_corner)
qed

theorem capture_idempotence_witness:
  "gridAt (grid (fst (cellTransition 6 enteringGame))) 3 2 = Some EMPTY \<and>
   drone_lastX (drone (fst (cellTransition 6 enteringGame))) = 4 \<and>
   animate 6 idleGame =
     forEachEnemy 6 [0] (idleGame\<lparr>drone := closingDrone\<lparr>drone_x := 4.05, drone_lastX := 4\<rparr>\<rparr>) \<and>
   grid (handleCapture 6 capturedGame) = capturedGrid6 \<and>
   trailCount (handleCapture 6 capturedGame) = 0 \<and>
   capturedPercent (handleCapture 6 capturedGame) = 94 \<and>
   grid (handleCapture 6 (handleCapture 6 closingGame)) = grid (handleCapture 6 closingGame) \<and>
   gridAt (grid (handleCapture 6 idleGame)) 3 2 = Some OCCUPIED"
proof -
  have f: "grid capturedGame = capturedGrid6" "enemies capturedGame = [bouncedBall]"
    "trailCount capturedGame = 0" "capturedPercent capturedGame = 94"
    by (simp_all add: capturedGame_def)
  have fi: "grid idleGame = capturedGrid6" "enemies idleGame = [cornerBall]"
    by (simp_all add: idleGame_def capturedGame_def)
  have fe: "grid enteringGame = capturedGrid6" "trailCount enteringGame = 0"
    "\<lfloor>drone_x (drone enteringGame)\<rfloor> = 4" "\<lfloor>drone_z (drone enteringGame)\<rfloor> = 2"
    by (simp_all add: enteringGame_def idleGame_def capturedGame_def closingDrone_def)
  have cells: "gridAt capturedGrid6 3 2 = Some EMPTY" "readCell capturedGrid6 2 4 = Inr (Some OCCUPIED)"
    by (simp_all add: gridAt_def readCell_def elemAt_def capturedGrid6_def)
  have A: "gridAt (grid (fst (cellTransition 6 enteringGame))) 3 2 = Some EMPTY \<and>
           drone_lastX (drone (fst (cellTransition 6 enteringGame))) = 4"
    using capture_idempotence[of enteringGame 6]
    by (simp add: fe cells)
  have du: "Drone_update 6 closingDrone = closingDrone\<lparr>drone_x := 4.05\<rparr>"
    by (simp add: Drone_update_def Let_def closingDrone_def)
  have fd: "drone idleGame = closingDrone" "messageHidden idleGame" "trailCount idleGame = 0"
    by (simp_all add: idleGame_def capturedGame_def closingGame_def)
  have flo: "\<lfloor>drone_x (closingDrone\<lparr>drone_x := 4.05\<rparr>)\<rfloor> = 4"
    "\<lfloor>drone_z (closingDrone\<lparr>drone_x := 4.05\<rparr>)\<rfloor> = 2"
    by (simp_all add: closingDrone_def)
  have rc: "closingDrone\<lparr>drone_x := 4.05, drone_lastX := 4, drone_lastZ := 2\<rparr> =
            closingDrone\<lparr>drone_x := 4.05, drone_lastX := 4\<rparr>"
    by (simp add: closingDrone_def)
  have u: "[0..<length (enemies idleGame)] = [0]" by (simp add: fi)
  have r: "readCell (grid idleGame) \<lfloor>drone_z (Drone_update 6 (drone idleGame))\<rfloor>
             \<lfloor>drone_x (Drone_update 6 (drone idleGame))\<rfloor> = Inr (Some OCCUPIED)"
    by (simp only: fd du flo fi cells)
  have "messageHidden idleGame \<and> trailCount idleGame = 0 \<and>
        readCell (grid idleGame) \<lfloor>drone_z (Drone_update 6 (drone idleGame))\<rfloor>
             \<lfloor>drone_x (Drone_update 6 (drone idleGame))\<rfloor> = Inr (Some OCCUPIED)"
    by (intro conjI) (rule fd(2), rule fd(3), rule r)
  with capture_idempotence[of idleGame 6]
  have "animate 6 idleGame =
        forEachEnemy 6 [0..<length (enemies idleGame)]
          (idleGame\<lparr>drone := (Drone_update 6 (drone idleGame))
                 \<lparr>drone_lastX := \<lfloor>drone_x (Drone_update 6 (drone idleGame))\<rfloor>,
                  drone_lastZ := \<lfloor>drone_z (Drone_update 6 (drone idleGame))\<rfloor>\<rparr>\<rparr>)"
    by blast
  then have E: "animate 6 idleGame =
     forEachEnemy 6 [0] (idleGame\<lparr>drone := closingDrone\<lparr>drone_x := 4.05, drone_lastX := 4\<rparr>\<rparr>)"
    by (simp only: fd(1) du flo u rc)
  have "fillable 6 capturedGrid6 [bouncedBall] = {}"
    using getFillableAreas_union[of 6 capturedGrid6 "[bouncedBall]"]
    by (simp add: fillable_capturedGrid6_bounced)
  then have thr: "\<forall>p\<in>emptyCells 6 (grid capturedGame).
      threatened 6 (grid capturedGame) (enemies capturedGame) p"
    by (auto simp: fillable_def f)
  have "countOccupied 6 capturedGrid6 = 34" by code_simp
  moreover have "percentOf 6 34 = 94"
  proof -
    have "percentOf 6 34 = \<lfloor>fl (fl (34 / 36) * 100)\<rfloor>" by (simp add: percentOf_def)
    also have "\<dots> = 94" by code_simp
    finally show ?thesis .
  qed
  ultimately have p: "percentOf 6 (countOccupied 6 capturedGrid6) = 94" by simp
  have B: "grid (handleCapture 6 capturedGame) = capturedGrid6 \<and>
           trailCount (handleCapture 6 capturedGame) = 0 \<and>
           capturedPercent (handleCapture 6 capturedGame) = 94"
    using capture_idempotence[of capturedGame 6] thr
    by (simp add: f noTrail_capturedGrid6 p del: handleCapture_fields)
  have C: "grid (handleCapture 6 (handleCapture 6 closingGame)) = grid (handleCapture 6 closingGame)"
    using capture_idempotence[of closingGame 6] wf_closing
    by (simp del: handleCapture_fields)
  have "fillable 6 capturedGrid6 [cornerBall] = {(2, 3), (3, 3)}"
    using getFillableAreas_union[of 6 capturedGrid6 "[cornerBall]"]
    by (simp add: fillable_capturedGrid6_corner)
  then have D: "gridAt (grid (handleCapture 6 idleGame)) 3 2 = Some OCCUPIED"
    using capture_idempotence[of idleGame 6 "(2, 3)"]
    by (simp add: fi wf_capturedGrid6 del: handleCapture_fields)
  from A B C D E show ?thesis by blast
qed

section \<open>Proofs: the captured percentage\<close>

lemma countOccupied_blockGrid50: "countOccupied 50 blockGrid50 = 725"
  by code_simp

lemma percentOf_725: "percentOf 50 725 = 28"
proof -
  have "percentOf 50 725 = \<lfloor>fl (fl (725 / 2500) * 100)\<rfloor>" by (simp add: percentOf_def)
  also have "\<dots> = 28" by code_simp
  finally show ?thesis .
qed

text \<open>
  Two well-known doubles: 0.1 is \<open>3602879701896397 / 2^55\<close>, and \<^verbatim>\<open>0.29 * 100\<close> is
  \<^verbatim>\<open>28.999999999999996\<close>, that is \<open>8162774324609023 / 2^48\<close>.
\<close>

lemma fl_one_tenth: "fl (1 / 10) = 3602879701896397 / 36028797018963968"
  by code_simp

lemma fl_29_percent: "fl (fl (29 / 100) * 100) = 8162774324609023 / 281474976710656"
  by code_simp

text \<open>The target itself is not touched by the rounding: 2000 of 2500 cells give 80.\<close>

lemma percentOf_2000: "percentOf 50 2000 = 80"
proof -
  have "percentOf 50 2000 = \<lfloor>fl (fl (2000 / 2500) * 100)\<rfloor>" by (simp add: percentOf_def)
  also have "\<dots> = 80" by code_simp
  finally show ?thesis .
qed

lemma percentOf_1999: "percentOf 50 1999 = 79"
proof -
  have "percentOf 50 1999 = \<lfloor>fl (fl (1999 / 2500) * 100)\<rfloor>" by (simp add: percentOf_def)
  also have "\<dots> = 79" by code_simp
  finally show ?thesis .
qed

text \<open>
  C8. The source computes \<^verbatim>\<open>Math.floor((occupied / (GRID_SIZE * GRID_SIZE)) * 100)\<close>
  in double arithmetic. With 725 of the 2500 cells \<^verbatim>\<open>OCCUPIED\<close>, exactly 29 percent,
  the quotient is rounded to the double just below 0.29 and the product to the double
  just below 29, so the captured percentage that \<^verbatim>\<open>calculateCaptured\<close> stores is 28,
  while the floor of the exact value is 29.
\<close>

theorem captured_percentage_rounding:
  "countOccupied 50 blockGrid50 = 725 \<and>
   capturedPercent (calculateCaptured 50 (s\<lparr>grid := blockGrid50\<rparr>)) = 28 \<and>
   \<lfloor>of_nat (countOccupied 50 blockGrid50) / of_nat (50 * 50) * (100 :: rat)\<rfloor> = 29"
  by (simp add: countOccupied_blockGrid50 percentOf_725)

text \<open>
  \<^verbatim>\<open>calculateCaptured\<close> sends the win sound and the message exactly when the
  percentage it has just stored reaches the target.
\<close>

lemma levelComplete_iff:
  "signals (calculateCaptured N s) =
     signals s @ (if TARGET_PERCENT \<le> percentOf N (countOccupied N (grid s))
                  then [PlayWin, if level s < 3 then MsgLevelPassed (level s) else MsgVictory]
                  else [])"
  by (simp add: calculateCaptured_def Let_def)

end
